theory Spec2Isabelle
  imports Main
begin

section \<open>Data model of broccoli-typescript.js\<close>

text \<open>
  The embedding follows \<^verbatim>\<open>src/lib/broccoli/broccoli-typescript.js\<close>. Paths and file
  contents are strings of 8-bit code units. Counters are natural numbers (the source
  increments a JavaScript number from 0; the saturation of doubles beyond \<open>2^53\<close> is out
  of reach of any run and is not modelled).
\<close>

text \<open>The object literal \<^verbatim>\<open>{ version: 0 }\<close> stored in \<^verbatim>\<open>fileRegistry\<close>.\<close>

record file_record =
  version :: nat

text \<open>
  \<^verbatim>\<open>fileRegistry\<close> is created by \<^verbatim>\<open>Object.create(null)\<close>, so it has no inherited keys.
  A key that was never assigned reads as \<^verbatim>\<open>undefined\<close> (\<open>None\<close>), a key assigned
  \<^verbatim>\<open>null\<close> reads as \<open>Some None\<close> (the tombstone), and a key holding a record reads as
  \<open>Some (Some r)\<close>.
\<close>

type_synonym registry = "string \<rightharpoonup> file_record option"

text \<open>
  A TypeScript diagnostic as the plugin reads it: \<open>diag_file\<close> is \<^verbatim>\<open>diagnostic.file\<close> (it may
  be undefined); \<open>line\<close> and \<open>character\<close> are the zero-based results of
  \<^verbatim>\<open>diagnostic.file.getLineAndCharacterOfPosition(diagnostic.start)\<close>; \<open>message\<close> is the
  result of \<^verbatim>\<open>ts.flattenDiagnosticMessageText(diagnostic.messageText, "\n")\<close>.
\<close>

record source_file =
  fileName :: string
  line :: nat
  character :: nat

record diagnostic =
  diag_file :: "source_file option"
  message :: string

text \<open>An element \<^verbatim>\<open>o\<close> of \<^verbatim>\<open>output.outputFiles\<close>, with \<^verbatim>\<open>o.name\<close> and \<^verbatim>\<open>o.text\<close>.\<close>

record output_file =
  out_name :: string
  out_text :: string

text \<open>
  The result of \<^verbatim>\<open>tsService.getEmitOutput(path)\<close>, and the result of \<^verbatim>\<open>program.emit\<close>:
  for the latter \<open>outputFiles\<close> are the files handed to the write callback, in order.
\<close>

record emit_output =
  emitSkipped :: bool
  outputFiles :: "output_file list"

record emit_result = emit_output +
  diagnostics :: "diagnostic list"

text \<open>The diff handed to \<^verbatim>\<open>rebuild\<close>.\<close>

record tree_diff =
  changedPaths :: "string list"
  removedPaths :: "string list"

text \<open>
  The external collaborators during one call of \<^verbatim>\<open>rebuild\<close>: Node's \<^verbatim>\<open>path.join\<close> and
  \<^verbatim>\<open>path.dirname\<close>, and the answers of the TypeScript language service. They are
  parameters of the model. \<open>program_emit\<close> and \<open>getPreEmitDiagnostics\<close> take the root
  file names the service reads through \<^verbatim>\<open>getScriptFileNames\<close> when it builds the program.
\<close>

record env =
  path_join :: "string \<Rightarrow> string \<Rightarrow> string"
  path_dirname :: "string \<Rightarrow> string"
  getEmitOutput :: "string \<Rightarrow> emit_output"
  getCompilerOptionsDiagnostics :: "diagnostic list"
  getSyntacticDiagnostics :: "string \<Rightarrow> diagnostic list"
  getSemanticDiagnostics :: "string \<Rightarrow> diagnostic list"
  program_emit :: "string list \<Rightarrow> emit_result"
  getPreEmitDiagnostics :: "string list \<Rightarrow> diagnostic list"

text \<open>Everything the plugin does to the outside world, in the order it does it.\<close>

datatype event =
    Log string
  | Exists string
  | Unlink string
  | Mkdirs string
  | WriteFile string string
  | EmitFile string
  | OptionsDiags
  | SyntacticDiags string
  | SemanticDiags string
  | EmitProgram "string list"
  | PreEmitDiags

text \<open>
  What a call can throw: \<^verbatim>\<open>new Error(msg)\<close>, the \<^verbatim>\<open>ENOENT\<close> error of \<^verbatim>\<open>fs.unlinkSync\<close> on
  a missing file, and the \<^verbatim>\<open>TypeError\<close> of reading a property of \<^verbatim>\<open>undefined\<close>.
\<close>

datatype error =
    Error string
  | ENOENT string
  | TypeError

text \<open>
  The fields of a \<^verbatim>\<open>DiffingTSCompiler\<close> that \<^verbatim>\<open>rebuild\<close> reads or writes, together with
  the cache directory's files (path to content) and the trace of events. Directory
  creation and file writes are taken to succeed.
\<close>

record state =
  cachePath :: string
  fileRegistry :: registry
  rootFilePaths :: "string list"
  firstRun :: bool
  previousRunFailed :: bool
  files :: "string \<rightharpoonup> string"
  trace :: "event list"

text \<open>The part of the constructor's \<^verbatim>\<open>options\<close> that reaches these fields.\<close>

record options =
  opt_rootFilePaths :: "string list option"

section \<open>JavaScript primitives\<close>

text \<open>\<^verbatim>\<open>Array.prototype.indexOf\<close>: the first index holding the value, or \<open>-1\<close>.\<close>

fun indexOf :: "'a list \<Rightarrow> 'a \<Rightarrow> int" where
  "indexOf [] x = - 1"
| "indexOf (y # ys) x =
     (if y = x then 0 else (let i = indexOf ys x in if i < 0 then - 1 else i + 1))"

text \<open>
  \<^verbatim>\<open>Array.prototype.splice(start, deleteCount)\<close>, the array it leaves: a negative start
  counts from the end, and the range is clamped to the array.
\<close>

definition splice_js :: "'a list \<Rightarrow> int \<Rightarrow> nat \<Rightarrow> 'a list" where
  "splice_js xs start deleteCount =
     (let n = int (length xs);
          k = nat (if start < 0 then max (n + start) 0 else min start n);
          c = min deleteCount (length xs - k)
      in take k xs @ drop (k + c) xs)"

text \<open>\<^verbatim>\<open>p.replace(/\.ts$/, r)\<close>: a final \<^verbatim>\<open>.ts\<close> is replaced by \<open>r\<close>.\<close>

definition replace_dot_ts :: "string \<Rightarrow> string \<Rightarrow> string" where
  "replace_dot_ts p r =
     (case rev p of
        s # t # d # rest \<Rightarrow>
          if s = CHR ''s'' \<and> t = CHR ''t'' \<and> d = CHR ''.'' then rev rest @ r else p
      | _ \<Rightarrow> p)"

text \<open>
  \<^verbatim>\<open>p.replace(/.ts$/, r)\<close>: the dot is not escaped, so any character but a line
  terminator (of the 8-bit code units: LF and CR) followed by a final \<^verbatim>\<open>ts\<close> is replaced.
\<close>

definition replace_any_ts :: "string \<Rightarrow> string \<Rightarrow> string" where
  "replace_any_ts p r =
     (case rev p of
        s # t # d # rest \<Rightarrow>
          if s = CHR ''s'' \<and> t = CHR ''t'' \<and> d \<noteq> CHR 0x0A \<and> d \<noteq> CHR 0x0D
          then rev rest @ r else p
      | _ \<Rightarrow> p)"

text \<open>\<^verbatim>\<open>Number.prototype.toString\<close> on a natural number: its decimal digits.\<close>

definition digit_char :: "nat \<Rightarrow> char" where
  "digit_char d = ''0123456789'' ! d"

fun toString :: "nat \<Rightarrow> string" where
  "toString n =
     (if n < 10 then [digit_char n]
      else toString (n div 10) @ [digit_char (n mod 10)])"

declare toString.simps [simp del]

text \<open>\<^verbatim>\<open>Array.prototype.join(sep)\<close> on strings.\<close>

fun join_lines :: "string \<Rightarrow> string list \<Rightarrow> string" where
  "join_lines sep [] = []"
| "join_lines sep [x] = x"
| "join_lines sep (x # y # ys) = x @ sep @ join_lines sep (y # ys)"

section \<open>The plugin\<close>

definition record_event :: "event \<Rightarrow> state \<Rightarrow> state" where
  "record_event e s = s\<lparr>trace := trace s @ [e]\<rparr>"

text \<open>The constructor, for the fields above; \<^verbatim>\<open>splice(0)\<close> takes every element.\<close>

definition DiffingTSCompiler :: "string \<Rightarrow> options \<Rightarrow> (string \<rightharpoonup> string) \<Rightarrow> state" where
  "DiffingTSCompiler cache opts fs =
     \<lparr>cachePath = cache,
      fileRegistry = Map.empty,
      rootFilePaths = (case opt_rootFilePaths opts of Some xs \<Rightarrow> xs | None \<Rightarrow> []),
      firstRun = True,
      previousRunFailed = False,
      files = fs,
      trace = []\<rparr>"

text \<open>The callback of \<^verbatim>\<open>treeDiff.changedPaths.forEach\<close>, on the compiler's fields.\<close>

definition changed_entry :: "string \<Rightarrow> state \<Rightarrow> state" where
  "changed_entry tsFilePath s =
     (case fileRegistry s tsFilePath of
        Some (Some r) \<Rightarrow>
          s\<lparr>fileRegistry := (fileRegistry s)(tsFilePath \<mapsto> Some (r\<lparr>version := version r + 1\<rparr>))\<rparr>
      | _ \<Rightarrow>
          s\<lparr>fileRegistry := (fileRegistry s)(tsFilePath \<mapsto> Some \<lparr>version = 0\<rparr>),
            rootFilePaths := rootFilePaths s @ [tsFilePath]\<rparr>)"

text \<open>The loop over the changed paths; the first component is \<^verbatim>\<open>pathsToEmit\<close>.\<close>

fun forEach_changed :: "string list \<Rightarrow> string list \<times> state \<Rightarrow> string list \<times> state" where
  "forEach_changed [] (pathsToEmit, s) = (pathsToEmit, s)"
| "forEach_changed (p # ps) (pathsToEmit, s) =
     forEach_changed ps (pathsToEmit @ [p], changed_entry p s)"

text \<open>
  Statement sequencing under exceptions: when the first statement throws, the rest is
  not run and the error propagates with the state reached so far.
\<close>

definition and_then ::
  "(error + unit) \<times> state \<Rightarrow> (state \<Rightarrow> (error + unit) \<times> state) \<Rightarrow> (error + unit) \<times> state" where
  "and_then r f = (case r of (Inl err, s) \<Rightarrow> (Inl err, s) | (Inr _, s) \<Rightarrow> f s)"

text \<open>\<^verbatim>\<open>fs.unlinkSync\<close>: it throws when the file is not there.\<close>

definition unlinkSync :: "string \<Rightarrow> state \<Rightarrow> (error + unit) \<times> state" where
  "unlinkSync f s =
     (case files s f of
        None \<Rightarrow> (Inl (ENOENT f), record_event (Unlink f) s)
      | Some _ \<Rightarrow> (Inr (), record_event (Unlink f) (s\<lparr>files := (files s)(f := None)\<rparr>)))"

definition removeOutputFor :: "env \<Rightarrow> string \<Rightarrow> state \<Rightarrow> (error + unit) \<times> state" where
  "removeOutputFor e tsFilePath s =
     (let absoluteJsFilePath = path_join e (cachePath s) (replace_dot_ts tsFilePath ''.js'');
          absoluteMapFilePath = path_join e (cachePath s) (replace_any_ts tsFilePath ''.js.map'');
          absoluteDtsFilePath = path_join e (cachePath s) (replace_dot_ts tsFilePath ''.d.ts'');
          s1 = record_event (Exists absoluteJsFilePath) s
      in if files s1 absoluteJsFilePath \<noteq> None then
           and_then (unlinkSync absoluteJsFilePath s1) (\<lambda>s2.
           and_then (unlinkSync absoluteMapFilePath s2) (\<lambda>s3.
           unlinkSync absoluteDtsFilePath s3))
         else (Inr (), s1))"

text \<open>The callback of \<^verbatim>\<open>treeDiff.removedPaths.forEach\<close>.\<close>

definition removed_entry :: "env \<Rightarrow> string \<Rightarrow> state \<Rightarrow> (error + unit) \<times> state" where
  "removed_entry e tsFilePath s =
     (let s1 = record_event (Log (''removing outputs for '' @ tsFilePath)) s;
          s2 = s1\<lparr>rootFilePaths :=
                 splice_js (rootFilePaths s1) (indexOf (rootFilePaths s1) tsFilePath) 1\<rparr>;
          s3 = s2\<lparr>fileRegistry := (fileRegistry s2)(tsFilePath \<mapsto> None)\<rparr>
      in removeOutputFor e tsFilePath s3)"

fun forEach_removed :: "env \<Rightarrow> string list \<Rightarrow> state \<Rightarrow> (error + unit) \<times> state" where
  "forEach_removed e [] s = (Inr (), s)"
| "forEach_removed e (p # ps) s =
     and_then (removed_entry e p s) (\<lambda>s'. forEach_removed e ps s')"

text \<open>\<^verbatim>\<open>fse.mkdirsSync(path.dirname(name)); fs.writeFileSync(name, text, FS_OPTS)\<close>.\<close>

definition write_file :: "env \<Rightarrow> output_file \<Rightarrow> state \<Rightarrow> state" where
  "write_file e out s =
     s\<lparr>files := (files s)(out_name out \<mapsto> out_text out),
       trace := trace s @ [Mkdirs (path_dirname e (out_name out)),
                           WriteFile (out_name out) (out_text out)]\<rparr>"

fun write_files :: "env \<Rightarrow> output_file list \<Rightarrow> state \<Rightarrow> state" where
  "write_files e [] s = s"
| "write_files e (out # outs) s = write_files e outs (write_file e out s)"

text \<open>The line \<^verbatim>\<open>logError\<close> prints for one diagnostic.\<close>

definition error_line :: "diagnostic \<Rightarrow> string" where
  "error_line d =
     (case diag_file d of
        Some f \<Rightarrow>
          ''  Error '' @ fileName f @ '' ('' @ toString (line f + 1) @ '','' @
          toString (character f + 1) @ ''): '' @ message d
      | None \<Rightarrow> ''  Error: '' @ message d)"

definition logError :: "env \<Rightarrow> string \<Rightarrow> state \<Rightarrow> bool \<times> state" where
  "logError e tsFilePath s =
     (let allDiagnostics =
            getCompilerOptionsDiagnostics e @ getSyntacticDiagnostics e tsFilePath @
            getSemanticDiagnostics e tsFilePath;
          s1 = s\<lparr>trace := trace s @
                 [OptionsDiags, SyntacticDiags tsFilePath, SemanticDiags tsFilePath]\<rparr>;
          s2 = s1\<lparr>trace := trace s1 @ map (\<lambda>d. Log (error_line d)) allDiagnostics\<rparr>
      in (allDiagnostics \<noteq> [], s2))"

text \<open>
  The loop of \<^verbatim>\<open>doFullBuild\<close> that fills \<^verbatim>\<open>errorMessages\<close>. It reads
  \<^verbatim>\<open>diagnostic.file.getLineAndCharacterOfPosition\<close> without a guard, so a diagnostic
  with no file throws a \<^verbatim>\<open>TypeError\<close> (\<open>None\<close>).
\<close>

fun full_build_messages :: "diagnostic list \<Rightarrow> string list option" where
  "full_build_messages [] = Some []"
| "full_build_messages (d # ds) =
     (case diag_file d of
        None \<Rightarrow> None
      | Some f \<Rightarrow>
          (case full_build_messages ds of
             None \<Rightarrow> None
           | Some ms \<Rightarrow>
               Some ((''  '' @ fileName f @ '' ('' @ toString (line f + 1) @ '','' @
                      toString (character f + 1) @ ''): '' @ message d) # ms)))"

definition errors_message :: string where
  "errors_message = ''Typescript found errors listed above...''"

definition doFullBuild :: "env \<Rightarrow> state \<Rightarrow> (error + unit) \<times> state" where
  "doFullBuild e s =
     (let emitResult = program_emit e (rootFilePaths s);
          s1 = write_files e (outputFiles emitResult)
                 (record_event (EmitProgram (rootFilePaths s)) s)
      in if emitSkipped emitResult then
           (let allDiagnostics =
                  getPreEmitDiagnostics e (rootFilePaths s) @ diagnostics emitResult;
                s2 = record_event PreEmitDiags s1
            in case full_build_messages allDiagnostics of
                 None \<Rightarrow> (Inl TypeError, s2)
               | Some errorMessages \<Rightarrow>
                   if errorMessages \<noteq> [] then
                     (Inl (Error errors_message),
                      record_event (Log (join_lines [CHR 0x0A] errorMessages))
                        (s2\<lparr>previousRunFailed := True\<rparr>))
                   else (Inr (), s2\<lparr>previousRunFailed := False\<rparr>))
         else (Inr (), s1))"

text \<open>The callback of \<^verbatim>\<open>pathsToEmit.forEach\<close>; the first component is \<^verbatim>\<open>pathsWithErrors\<close>.\<close>

definition emit_entry :: "env \<Rightarrow> string \<Rightarrow> string list \<times> state \<Rightarrow> string list \<times> state" where
  "emit_entry e tsFilePath = (\<lambda>(pathsWithErrors, s).
     (let output = getEmitOutput e tsFilePath;
          s1 = record_event (EmitFile tsFilePath) s
      in if emitSkipped output then
           (case logError e tsFilePath s1 of
              (errorFound, s2) \<Rightarrow>
                (if errorFound then pathsWithErrors @ [tsFilePath] else pathsWithErrors, s2))
         else (pathsWithErrors, write_files e (outputFiles output) s1)))"

fun forEach_emit :: "env \<Rightarrow> string list \<Rightarrow> string list \<times> state \<Rightarrow> string list \<times> state" where
  "forEach_emit e [] acc = acc"
| "forEach_emit e (p # ps) acc = forEach_emit e ps (emit_entry e p acc)"

definition rebuild :: "env \<Rightarrow> tree_diff \<Rightarrow> state \<Rightarrow> (error + unit) \<times> state" where
  "rebuild e treeDiff s =
     (case forEach_changed (changedPaths treeDiff) ([], s) of
        (pathsToEmit, s1) \<Rightarrow>
          and_then (forEach_removed e (removedPaths treeDiff) s1) (\<lambda>s2.
            if firstRun s2 then doFullBuild e (s2\<lparr>firstRun := False\<rparr>)
            else
              (case forEach_emit e pathsToEmit ([], s2) of
                 (pathsWithErrors, s3) \<Rightarrow>
                   if pathsWithErrors \<noteq> [] then
                     (Inl (Error errors_message), s3\<lparr>previousRunFailed := True\<rparr>)
                   else if previousRunFailed s3 then doFullBuild e s3
                   else (Inr (), s3))))"

text \<open>
  \<^verbatim>\<open>CustomLanguageServiceHost.prototype.getScriptVersion\<close>:
  \<^verbatim>\<open>this.fileRegistry[fileName] && this.fileRegistry[fileName].version.toString()\<close>.
\<close>

datatype js_value = Undefined | Null | Str string

definition getScriptVersion :: "state \<Rightarrow> string \<Rightarrow> js_value" where
  "getScriptVersion s fileName' =
     (case fileRegistry s fileName' of
        None \<Rightarrow> Undefined
      | Some None \<Rightarrow> Null
      | Some (Some r) \<Rightarrow> Str (toString (version r)))"

text \<open>
  The host calls \<^verbatim>\<open>rebuild\<close> once per cycle on the same object, whether or not the
  previous call threw: the state a call leaves is the state the next call starts from.
\<close>

fun run_cycles :: "(env \<times> tree_diff) list \<Rightarrow> state \<Rightarrow> state" where
  "run_cycles [] s = s"
| "run_cycles ((e, d) # cs) s = run_cycles cs (snd (rebuild e d s))"

section \<open>Vocabulary of the properties\<close>

text \<open>
  The definitions of this section are not code of the plugin: they name the parts of
  \<open>rebuild\<close> and the notions the properties below are stated with.
\<close>

text \<open>
  The two halves of \<open>rebuild\<close>: the loops over the diff, and the build decision that
  follows when they did not throw (\<open>rebuild_phases\<close> below).
\<close>

definition diff_phase :: "env \<Rightarrow> tree_diff \<Rightarrow> state \<Rightarrow> (error + unit) \<times> state" where
  "diff_phase e d s =
     forEach_removed e (removedPaths d) (snd (forEach_changed (changedPaths d) ([], s)))"

definition build_phase :: "env \<Rightarrow> string list \<Rightarrow> state \<Rightarrow> (error + unit) \<times> state" where
  "build_phase e pathsToEmit s2 =
     (if firstRun s2 then doFullBuild e (s2\<lparr>firstRun := False\<rparr>)
      else
        (case forEach_emit e pathsToEmit ([], s2) of
           (pathsWithErrors, s3) \<Rightarrow>
             if pathsWithErrors \<noteq> [] then
               (Inl (Error errors_message), s3\<lparr>previousRunFailed := True\<rparr>)
             else if previousRunFailed s3 then doFullBuild e s3
             else (Inr (), s3)))"

text \<open>A path is tracked when the registry holds a record for it (the slot is truthy).\<close>

definition is_tracked :: "registry \<Rightarrow> string \<Rightarrow> bool" where
  "is_tracked reg p = (case reg p of Some (Some r) \<Rightarrow> True | _ \<Rightarrow> False)"

text \<open>How often the diffs of a run of cycles report a path as changed.\<close>

definition reports :: "string \<Rightarrow> (env \<times> tree_diff) list \<Rightarrow> nat" where
  "reports p cycles = count_list (concat (map (\<lambda>(e, d). changedPaths d) cycles)) p"

text \<open>The root set and the registry in lockstep: the same paths are in both.\<close>

definition in_lockstep :: "state \<Rightarrow> bool" where
  "in_lockstep s =
     (\<forall>p. (p \<in> set (rootFilePaths s)) = is_tracked (fileRegistry s) p)"

text \<open>
  The consistency precondition on diffs: each removal is reported while the path is
  tracked, at the moment the loop reaches it (after the changed paths of the same diff
  and the earlier removals).
\<close>

fun removals_tracked :: "string list \<Rightarrow> registry \<Rightarrow> bool" where
  "removals_tracked [] reg = True"
| "removals_tracked (p # ps) reg = (is_tracked reg p \<and> removals_tracked ps (reg(p \<mapsto> None)))"

definition diff_consistent :: "tree_diff \<Rightarrow> state \<Rightarrow> bool" where
  "diff_consistent d s =
     removals_tracked (removedPaths d)
       (fileRegistry (snd (forEach_changed (changedPaths d) ([], s))))"

fun cycles_consistent :: "(env \<times> tree_diff) list \<Rightarrow> state \<Rightarrow> bool" where
  "cycles_consistent [] s = True"
| "cycles_consistent ((e, d) # cs) s =
     (diff_consistent d s \<and> cycles_consistent cs (snd (rebuild e d s)))"

text \<open>The value of \<open>firstRun\<close> before each call of a run of cycles, and after the last.\<close>

fun firstRun_history :: "(env \<times> tree_diff) list \<Rightarrow> state \<Rightarrow> bool list" where
  "firstRun_history [] s = [firstRun s]"
| "firstRun_history ((e, d) # cs) s = firstRun s # firstRun_history cs (snd (rebuild e d s))"

text \<open>The three files \<open>removeOutputFor\<close> computes for a source path.\<close>

definition js_artifact :: "env \<Rightarrow> state \<Rightarrow> string \<Rightarrow> string" where
  "js_artifact e s p = path_join e (cachePath s) (replace_dot_ts p ''.js'')"

definition map_artifact :: "env \<Rightarrow> state \<Rightarrow> string \<Rightarrow> string" where
  "map_artifact e s p = path_join e (cachePath s) (replace_any_ts p ''.js.map'')"

definition dts_artifact :: "env \<Rightarrow> state \<Rightarrow> string \<Rightarrow> string" where
  "dts_artifact e s p = path_join e (cachePath s) (replace_dot_ts p ''.d.ts'')"

text \<open>
  The diagnostics \<open>logError\<close> collects for a path, and the paths \<open>rebuild\<close> pushes to
  \<^verbatim>\<open>pathsWithErrors\<close>: emission skipped and at least one diagnostic found.
\<close>

definition path_diagnostics :: "env \<Rightarrow> string \<Rightarrow> diagnostic list" where
  "path_diagnostics e p =
     getCompilerOptionsDiagnostics e @ getSyntacticDiagnostics e p @ getSemanticDiagnostics e p"

definition failed_path :: "env \<Rightarrow> string \<Rightarrow> bool" where
  "failed_path e p = (emitSkipped (getEmitOutput e p) \<and> path_diagnostics e p \<noteq> [])"

text \<open>The output files of the paths whose emission was not skipped, in order.\<close>

definition emitted_files :: "env \<Rightarrow> string list \<Rightarrow> output_file list" where
  "emitted_files e ps =
     concat (map (\<lambda>p. outputFiles (getEmitOutput e p))
       (filter (\<lambda>p. \<not> emitSkipped (getEmitOutput e p)) ps))"

text \<open>The cache directory after writing a list of files, and the events of writing them.\<close>

definition written :: "output_file list \<Rightarrow> (string \<rightharpoonup> string) \<Rightarrow> (string \<rightharpoonup> string)" where
  "written outs fs = fold (\<lambda>out m. m(out_name out \<mapsto> out_text out)) outs fs"

definition write_events :: "env \<Rightarrow> output_file list \<Rightarrow> event list" where
  "write_events e outs =
     concat (map (\<lambda>out. [Mkdirs (path_dirname e (out_name out)),
                          WriteFile (out_name out) (out_text out)]) outs)"

text \<open>The events of the incremental emission of one path.\<close>

definition emit_events :: "env \<Rightarrow> string \<Rightarrow> event list" where
  "emit_events e p =
     EmitFile p #
     (if emitSkipped (getEmitOutput e p) then
        [OptionsDiags, SyntacticDiags p, SemanticDiags p] @
        map (\<lambda>d. Log (error_line d)) (path_diagnostics e p)
      else write_events e (outputFiles (getEmitOutput e p)))"

fun is_emit_file :: "event \<Rightarrow> bool" where
  "is_emit_file (EmitFile p) = True"
| "is_emit_file _ = False"

fun is_emit_program :: "event \<Rightarrow> bool" where
  "is_emit_program (EmitProgram roots) = True"
| "is_emit_program _ = False"

fun is_write :: "event \<Rightarrow> bool" where
  "is_write (WriteFile f t) = True"
| "is_write _ = False"

section \<open>Concrete scenarios\<close>

text \<open>
  A small language service: emission of the paths in \<open>skipped\<close> is skipped, the paths in
  \<open>bad\<close> carry one syntactic diagnostic, every other path emits one \<^verbatim>\<open>.js\<close> file, and the
  whole-program emit is skipped exactly when a root file is in \<open>bad\<close>.
\<close>

definition demo_diag :: "string \<Rightarrow> diagnostic" where
  "demo_diag p =
     \<lparr>diag_file = Some \<lparr>fileName = p, line = 0, character = 4\<rparr>, message = ''oops''\<rparr>"

definition demo_js :: "string \<Rightarrow> output_file" where
  "demo_js p = \<lparr>out_name = ''cache/'' @ replace_dot_ts p ''.js'', out_text = ''js''\<rparr>"

definition demo_env :: "string list \<Rightarrow> string list \<Rightarrow> env" where
  "demo_env skipped bad =
     \<lparr>path_join = (\<lambda>dir p. dir @ ''/'' @ p),
      path_dirname = (\<lambda>p. ''cache''),
      getEmitOutput = (\<lambda>p.
        if p \<in> set skipped then \<lparr>emitSkipped = True, outputFiles = []\<rparr>
        else \<lparr>emitSkipped = False, outputFiles = [demo_js p]\<rparr>),
      getCompilerOptionsDiagnostics = [],
      getSyntacticDiagnostics = (\<lambda>p. if p \<in> set bad then [demo_diag p] else []),
      getSemanticDiagnostics = (\<lambda>p. []),
      program_emit = (\<lambda>roots.
        \<lparr>emitSkipped = (filter (\<lambda>p. p \<in> set bad) roots \<noteq> []),
         outputFiles = (if filter (\<lambda>p. p \<in> set bad) roots \<noteq> [] then [] else map demo_js roots),
         diagnostics = map demo_diag (filter (\<lambda>p. p \<in> set bad) roots)\<rparr>),
      getPreEmitDiagnostics = (\<lambda>roots. [])\<rparr>"

definition only_changed :: "string list \<Rightarrow> tree_diff" where
  "only_changed ps = \<lparr>changedPaths = ps, removedPaths = []\<rparr>"

definition only_removed :: "string list \<Rightarrow> tree_diff" where
  "only_removed ps = \<lparr>changedPaths = [], removedPaths = ps\<rparr>"

text \<open>A fresh compiler over an empty cache directory, with no root files in its options.\<close>

definition demo_start :: state where
  "demo_start = DiffingTSCompiler ''cache'' \<lparr>opt_rootFilePaths = None\<rparr> Map.empty"

text \<open>After a first cycle that built \<^verbatim>\<open>a.ts\<close> without errors.\<close>

definition steady_state :: state where
  "steady_state = run_cycles [(demo_env [] [], only_changed [''a.ts''])] demo_start"

text \<open>After a second cycle in which the emission of \<^verbatim>\<open>b.ts\<close> failed.\<close>

definition degraded_state :: state where
  "degraded_state =
     run_cycles
       [(demo_env [] [], only_changed [''a.ts'']),
        (demo_env [''b.ts''] [''b.ts''], only_changed [''b.ts''])]
       demo_start"

text \<open>Three cycles that report \<^verbatim>\<open>b.ts\<close> changed three times and never removed.\<close>

definition three_reports :: "(env \<times> tree_diff) list" where
  "three_reports =
     [(demo_env [] [], only_changed [''a.ts'', ''b.ts'']),
      (demo_env [] [], only_changed [''b.ts'']),
      (demo_env [''b.ts''] [''b.ts''], only_changed [''b.ts'', ''a.ts''])]"

text \<open>A fresh compiler whose options name one root file.\<close>

definition typings_start :: state where
  "typings_start =
     DiffingTSCompiler ''cache'' \<lparr>opt_rootFilePaths = Some [''typings.d.ts'']\<rparr> Map.empty"

text \<open>Two consistent cycles: two files appear, then one is removed while the other changes.\<close>

definition add_then_remove :: "(env \<times> tree_diff) list" where
  "add_then_remove =
     [(demo_env [] [], only_changed [''a.ts'', ''b.ts'']),
      (demo_env [] [], \<lparr>changedPaths = [''b.ts''], removedPaths = [''a.ts'']\<rparr>)]"

text \<open>The steady state with all three artifacts of \<^verbatim>\<open>a.ts\<close> in the cache directory.\<close>

definition built_cache :: state where
  "built_cache =
     steady_state\<lparr>files := [''cache/a.js'' \<mapsto> ''js'', ''cache/a.js.map'' \<mapsto> ''map'',
                            ''cache/a.d.ts'' \<mapsto> ''dts'']\<rparr>"

text \<open>A fresh compiler over a cache directory that holds \<^verbatim>\<open>a.js\<close> without its siblings.\<close>

definition stale_start :: state where
  "stale_start =
     DiffingTSCompiler ''cache'' \<lparr>opt_rootFilePaths = None\<rparr> [''cache/a.js'' \<mapsto> ''js'']"

section \<open>Auxiliary facts\<close>

subsection \<open>What each step leaves unchanged\<close>

lemma record_event_fields [simp]:
  "cachePath (record_event ev s) = cachePath s"
  "fileRegistry (record_event ev s) = fileRegistry s"
  "rootFilePaths (record_event ev s) = rootFilePaths s"
  "firstRun (record_event ev s) = firstRun s"
  "previousRunFailed (record_event ev s) = previousRunFailed s"
  "files (record_event ev s) = files s"
  "trace (record_event ev s) = trace s @ [ev]"
  by (simp_all add: record_event_def)

lemma write_file_fields [simp]:
  "cachePath (write_file e out s) = cachePath s"
  "fileRegistry (write_file e out s) = fileRegistry s"
  "rootFilePaths (write_file e out s) = rootFilePaths s"
  "firstRun (write_file e out s) = firstRun s"
  "previousRunFailed (write_file e out s) = previousRunFailed s"
  by (simp_all add: write_file_def)

lemma write_files_fields [simp]:
  "cachePath (write_files e outs s) = cachePath s \<and>
   fileRegistry (write_files e outs s) = fileRegistry s \<and>
   rootFilePaths (write_files e outs s) = rootFilePaths s \<and>
   firstRun (write_files e outs s) = firstRun s \<and>
   previousRunFailed (write_files e outs s) = previousRunFailed s"
  by (induction outs arbitrary: s) simp_all

lemma logError_fields [simp]:
  "cachePath (snd (logError e p s)) = cachePath s"
  "fileRegistry (snd (logError e p s)) = fileRegistry s"
  "rootFilePaths (snd (logError e p s)) = rootFilePaths s"
  "firstRun (snd (logError e p s)) = firstRun s"
  "previousRunFailed (snd (logError e p s)) = previousRunFailed s"
  "files (snd (logError e p s)) = files s"
  by (simp_all add: logError_def Let_def)

lemma emit_entry_fields [simp]:
  "cachePath (snd (emit_entry e p acc)) = cachePath (snd acc) \<and>
   fileRegistry (snd (emit_entry e p acc)) = fileRegistry (snd acc) \<and>
   rootFilePaths (snd (emit_entry e p acc)) = rootFilePaths (snd acc) \<and>
   firstRun (snd (emit_entry e p acc)) = firstRun (snd acc) \<and>
   previousRunFailed (snd (emit_entry e p acc)) = previousRunFailed (snd acc)"
  by (cases acc) (simp add: emit_entry_def Let_def case_prod_beta)

lemma forEach_emit_fields [simp]:
  "cachePath (snd (forEach_emit e ps acc)) = cachePath (snd acc) \<and>
   fileRegistry (snd (forEach_emit e ps acc)) = fileRegistry (snd acc) \<and>
   rootFilePaths (snd (forEach_emit e ps acc)) = rootFilePaths (snd acc) \<and>
   firstRun (snd (forEach_emit e ps acc)) = firstRun (snd acc) \<and>
   previousRunFailed (snd (forEach_emit e ps acc)) = previousRunFailed (snd acc)"
  by (induction ps arbitrary: acc) simp_all

lemma doFullBuild_fields [simp]:
  "cachePath (snd (doFullBuild e s)) = cachePath s"
  "fileRegistry (snd (doFullBuild e s)) = fileRegistry s"
  "rootFilePaths (snd (doFullBuild e s)) = rootFilePaths s"
  "firstRun (snd (doFullBuild e s)) = firstRun s"
  by (simp_all add: doFullBuild_def Let_def split: option.split)

lemma and_then_fields:
  "(\<And>s. cachePath (snd (f s)) = cachePath s) \<Longrightarrow>
     cachePath (snd (and_then r f)) = cachePath (snd r)"
  "(\<And>s. fileRegistry (snd (f s)) = fileRegistry s) \<Longrightarrow>
     fileRegistry (snd (and_then r f)) = fileRegistry (snd r)"
  "(\<And>s. rootFilePaths (snd (f s)) = rootFilePaths s) \<Longrightarrow>
     rootFilePaths (snd (and_then r f)) = rootFilePaths (snd r)"
  "(\<And>s. firstRun (snd (f s)) = firstRun s) \<Longrightarrow>
     firstRun (snd (and_then r f)) = firstRun (snd r)"
  "(\<And>s. previousRunFailed (snd (f s)) = previousRunFailed s) \<Longrightarrow>
     previousRunFailed (snd (and_then r f)) = previousRunFailed (snd r)"
  by (simp_all add: and_then_def case_prod_beta split: sum.split)

lemma unlinkSync_fields [simp]:
  "cachePath (snd (unlinkSync f s)) = cachePath s"
  "fileRegistry (snd (unlinkSync f s)) = fileRegistry s"
  "rootFilePaths (snd (unlinkSync f s)) = rootFilePaths s"
  "firstRun (snd (unlinkSync f s)) = firstRun s"
  "previousRunFailed (snd (unlinkSync f s)) = previousRunFailed s"
  by (simp_all add: unlinkSync_def split: option.split)

lemma removeOutputFor_fields [simp]:
  "cachePath (snd (removeOutputFor e p s)) = cachePath s"
  "fileRegistry (snd (removeOutputFor e p s)) = fileRegistry s"
  "rootFilePaths (snd (removeOutputFor e p s)) = rootFilePaths s"
  "firstRun (snd (removeOutputFor e p s)) = firstRun s"
  "previousRunFailed (snd (removeOutputFor e p s)) = previousRunFailed s"
  by (simp_all add: removeOutputFor_def Let_def and_then_fields)

lemma removed_entry_fields [simp]:
  "cachePath (snd (removed_entry e p s)) = cachePath s"
  "fileRegistry (snd (removed_entry e p s)) = (fileRegistry s)(p \<mapsto> None)"
  "rootFilePaths (snd (removed_entry e p s)) =
     splice_js (rootFilePaths s) (indexOf (rootFilePaths s) p) 1"
  "firstRun (snd (removed_entry e p s)) = firstRun s"
  "previousRunFailed (snd (removed_entry e p s)) = previousRunFailed s"
  by (simp_all add: removed_entry_def Let_def)

lemma forEach_removed_fields [simp]:
  "cachePath (snd (forEach_removed e ps s)) = cachePath s \<and>
   firstRun (snd (forEach_removed e ps s)) = firstRun s \<and>
   previousRunFailed (snd (forEach_removed e ps s)) = previousRunFailed s"
  by (induction ps arbitrary: s) (simp_all add: and_then_fields)

lemma changed_entry_fields [simp]:
  "cachePath (changed_entry p s) = cachePath s"
  "firstRun (changed_entry p s) = firstRun s"
  "previousRunFailed (changed_entry p s) = previousRunFailed s"
  "files (changed_entry p s) = files s"
  "trace (changed_entry p s) = trace s"
  by (simp_all add: changed_entry_def split: option.split)

lemma forEach_changed_eq:
  "forEach_changed ps (acc, s) = (acc @ ps, fold changed_entry ps s)"
  by (induction ps arbitrary: acc s) simp_all

lemma fold_changed_fields [simp]:
  "cachePath (fold changed_entry ps s) = cachePath s \<and>
   firstRun (fold changed_entry ps s) = firstRun s \<and>
   previousRunFailed (fold changed_entry ps s) = previousRunFailed s \<and>
   files (fold changed_entry ps s) = files s \<and>
   trace (fold changed_entry ps s) = trace s"
  by (induction ps arbitrary: s) simp_all

subsection \<open>The two phases of rebuild\<close>

lemma rebuild_phases:
  "rebuild e d s = and_then (diff_phase e d s) (build_phase e (changedPaths d))"
  by (simp add: rebuild_def diff_phase_def build_phase_def[abs_def] forEach_changed_eq)

lemma build_phase_fields [simp]:
  "cachePath (snd (build_phase e ps s)) = cachePath s"
  "fileRegistry (snd (build_phase e ps s)) = fileRegistry s"
  "rootFilePaths (snd (build_phase e ps s)) = rootFilePaths s"
  by (simp_all add: build_phase_def case_prod_beta)

lemma rebuild_fields:
  "cachePath (snd (rebuild e d s)) = cachePath s"
  "fileRegistry (snd (rebuild e d s)) = fileRegistry (snd (diff_phase e d s))"
  "rootFilePaths (snd (rebuild e d s)) = rootFilePaths (snd (diff_phase e d s))"
  by (simp_all add: rebuild_phases and_then_fields diff_phase_def forEach_changed_eq)

lemma and_then_alt:
  "and_then r f = (case fst r of Inl err \<Rightarrow> r | Inr u \<Rightarrow> f (snd r))"
  by (cases r) (simp add: and_then_def split: sum.split)

lemma forEach_removed_registry_other:
  "p \<notin> set ps \<Longrightarrow> fileRegistry (snd (forEach_removed e ps s)) p = fileRegistry s p"
  by (induction ps arbitrary: s) (simp_all add: and_then_alt split: sum.split)

subsection \<open>The registry slot and the root-set entries of one path\<close>

lemma changed_entry_registry_other:
  "q \<noteq> p \<Longrightarrow> fileRegistry (changed_entry q s) p = fileRegistry s p"
  by (simp add: changed_entry_def split: option.split)

lemma changed_entry_untracked:
  "\<not> is_tracked (fileRegistry s) p \<Longrightarrow>
     fileRegistry (changed_entry p s) p = Some (Some \<lparr>version = 0\<rparr>) \<and>
     rootFilePaths (changed_entry p s) = rootFilePaths s @ [p]"
  by (auto simp: changed_entry_def is_tracked_def split: option.split)

lemma changed_entry_tracked:
  "fileRegistry s p = Some (Some r) \<Longrightarrow>
     fileRegistry (changed_entry p s) p = Some (Some (r\<lparr>version := version r + 1\<rparr>)) \<and>
     rootFilePaths (changed_entry p s) = rootFilePaths s"
  by (simp add: changed_entry_def)

lemma fold_changed_tracked:
  "fileRegistry s p = Some (Some \<lparr>version = v\<rparr>) \<Longrightarrow>
     fileRegistry (fold changed_entry ps s) p = Some (Some \<lparr>version = v + count_list ps p\<rparr>)"
proof (induction ps arbitrary: s v)
  case Nil
  then show ?case by simp
next
  case (Cons q qs)
  show ?case
  proof (cases "q = p")
    case True
    have "fileRegistry (changed_entry p s) p = Some (Some \<lparr>version = v + 1\<rparr>)"
      using changed_entry_tracked[OF Cons.prems] by simp
    from Cons.IH[OF this] show ?thesis using True by simp
  next
    case False
    have "fileRegistry (changed_entry q s) p = Some (Some \<lparr>version = v\<rparr>)"
      using Cons.prems False by (simp add: changed_entry_registry_other)
    from Cons.IH[OF this] show ?thesis using False by simp
  qed
qed

lemma fold_changed_untracked:
  "\<not> is_tracked (fileRegistry s) p \<Longrightarrow>
     fileRegistry (fold changed_entry ps s) p =
       (if count_list ps p = 0 then fileRegistry s p
        else Some (Some \<lparr>version = count_list ps p - 1\<rparr>))"
proof (induction ps arbitrary: s)
  case Nil
  then show ?case by simp
next
  case (Cons q qs)
  show ?case
  proof (cases "q = p")
    case True
    have "fileRegistry (changed_entry p s) p = Some (Some \<lparr>version = 0\<rparr>)"
      using changed_entry_untracked[OF Cons.prems] by simp
    from fold_changed_tracked[OF this, of qs] show ?thesis using True by simp
  next
    case False
    have "\<not> is_tracked (fileRegistry (changed_entry q s)) p"
      using Cons.prems False by (simp add: changed_entry_registry_other is_tracked_def)
    from Cons.IH[OF this] show ?thesis using False
      by (simp add: changed_entry_registry_other)
  qed
qed

lemma rebuild_registry_slot:
  "p \<notin> set (removedPaths d) \<Longrightarrow>
     fileRegistry (snd (rebuild e d s)) p = fileRegistry (fold changed_entry (changedPaths d) s) p"
  by (simp add: rebuild_fields diff_phase_def forEach_changed_eq forEach_removed_registry_other)

lemma reports_Cons:
  "reports p ((e, d) # cs) = count_list (changedPaths d) p + reports p cs"
  by (simp add: reports_def)

lemma run_cycles_tracked:
  "fileRegistry s p = Some (Some \<lparr>version = v\<rparr>) \<Longrightarrow>
   \<forall>(e, d) \<in> set cycles. p \<notin> set (removedPaths d) \<Longrightarrow>
     fileRegistry (run_cycles cycles s) p = Some (Some \<lparr>version = v + reports p cycles\<rparr>)"
proof (induction cycles arbitrary: s v)
  case Nil
  then show ?case by (simp add: reports_def)
next
  case (Cons c cs)
  obtain e d where c: "c = (e, d)" by (cases c)
  have nr: "p \<notin> set (removedPaths d)" using Cons.prems(2) c by simp
  have step: "fileRegistry (snd (rebuild e d s)) p =
      Some (Some \<lparr>version = v + count_list (changedPaths d) p\<rparr>)"
    using rebuild_registry_slot[OF nr] fold_changed_tracked[OF Cons.prems(1)] by simp
  have rest: "\<forall>(e, d) \<in> set cs. p \<notin> set (removedPaths d)" using Cons.prems(2) by simp
  from Cons.IH[OF step rest] show ?case by (simp add: c reports_Cons add.assoc)
qed

lemma run_cycles_untracked:
  "\<not> is_tracked (fileRegistry s) p \<Longrightarrow>
   \<forall>(e, d) \<in> set cycles. p \<notin> set (removedPaths d) \<Longrightarrow>
   0 < reports p cycles \<Longrightarrow>
     fileRegistry (run_cycles cycles s) p = Some (Some \<lparr>version = reports p cycles - 1\<rparr>)"
proof (induction cycles arbitrary: s)
  case Nil
  then show ?case by (simp add: reports_def)
next
  case (Cons c cs)
  obtain e d where c: "c = (e, d)" by (cases c)
  have nr: "p \<notin> set (removedPaths d)" using Cons.prems(2) c by simp
  have rest: "\<forall>(e, d) \<in> set cs. p \<notin> set (removedPaths d)" using Cons.prems(2) by simp
  have slot: "fileRegistry (snd (rebuild e d s)) p =
      (if count_list (changedPaths d) p = 0 then fileRegistry s p
       else Some (Some \<lparr>version = count_list (changedPaths d) p - 1\<rparr>))"
    using rebuild_registry_slot[OF nr] fold_changed_untracked[OF Cons.prems(1)] by simp
  show ?case
  proof (cases "count_list (changedPaths d) p = 0")
    case True
    then have "\<not> is_tracked (fileRegistry (snd (rebuild e d s))) p"
      using slot Cons.prems(1) by (simp add: is_tracked_def)
    moreover have "0 < reports p cs" using Cons.prems(3) True by (simp add: c reports_Cons)
    ultimately show ?thesis using Cons.IH rest True by (simp add: c reports_Cons)
  next
    case False
    then have "fileRegistry (snd (rebuild e d s)) p =
        Some (Some \<lparr>version = count_list (changedPaths d) p - 1\<rparr>)"
      using slot by simp
    from run_cycles_tracked[OF this rest] show ?thesis using False
      by (simp add: c reports_Cons)
  qed
qed

lemma changed_entry_count_other:
  "q \<noteq> p \<Longrightarrow> count_list (rootFilePaths (changed_entry q s)) p = count_list (rootFilePaths s) p"
  by (simp add: changed_entry_def split: option.split)

lemma changed_entry_keeps_tracked:
  "is_tracked (fileRegistry s) p \<Longrightarrow> is_tracked (fileRegistry (changed_entry q s)) p"
  by (auto simp: changed_entry_def is_tracked_def split: option.splits)

lemma changed_entry_count_tracked:
  "is_tracked (fileRegistry s) p \<Longrightarrow>
     count_list (rootFilePaths (changed_entry q s)) p = count_list (rootFilePaths s) p"
  by (auto simp: changed_entry_def is_tracked_def split: option.splits)

lemma fold_changed_count_tracked:
  "is_tracked (fileRegistry s) p \<Longrightarrow>
     count_list (rootFilePaths (fold changed_entry ps s)) p = count_list (rootFilePaths s) p"
  by (induction ps arbitrary: s)
     (simp_all add: changed_entry_count_tracked changed_entry_keeps_tracked)

lemma fold_changed_count_untracked:
  "\<not> is_tracked (fileRegistry s) p \<Longrightarrow> p \<in> set ps \<Longrightarrow>
     count_list (rootFilePaths (fold changed_entry ps s)) p = count_list (rootFilePaths s) p + 1"
proof (induction ps arbitrary: s)
  case Nil
  then show ?case by simp
next
  case (Cons q qs)
  show ?case
  proof (cases "q = p")
    case True
    have t: "is_tracked (fileRegistry (changed_entry p s)) p"
      using changed_entry_untracked[OF Cons.prems(1)] by (simp add: is_tracked_def)
    show ?thesis
      using fold_changed_count_tracked[OF t, of qs] changed_entry_untracked[OF Cons.prems(1)] True
      by simp
  next
    case False
    have "\<not> is_tracked (fileRegistry (changed_entry q s)) p"
      using Cons.prems(1) False by (simp add: changed_entry_registry_other is_tracked_def)
    moreover have "p \<in> set qs" using Cons.prems(2) False by simp
    ultimately show ?thesis using Cons.IH False by (simp add: changed_entry_count_other)
  qed
qed

subsection \<open>indexOf and splice\<close>

lemma splice_js_at:
  "i < length xs \<Longrightarrow> splice_js xs (int i) (Suc 0) = take i xs @ drop (Suc i) xs"
  by (simp add: splice_js_def Let_def min_def)

lemma splice_js_minus_one: "splice_js xs (- 1) (Suc 0) = butlast xs"
proof (cases xs rule: rev_cases)
  case Nil
  then show ?thesis by (simp add: splice_js_def)
next
  case (snoc ys y)
  then show ?thesis by (simp add: splice_js_def Let_def)
qed

lemma indexOf_absent: "x \<notin> set xs \<Longrightarrow> indexOf xs x = - 1"
  by (induction xs) (auto simp: Let_def)

lemma indexOf_present:
  "x \<in> set xs \<Longrightarrow>
     \<exists>i < length xs. indexOf xs x = int i \<and> take i xs @ drop (Suc i) xs = remove1 x xs"
proof (induction xs)
  case Nil
  then show ?case by simp
next
  case (Cons y ys)
  show ?case
  proof (cases "y = x")
    case True
    then show ?thesis by (intro exI[of _ 0]) simp
  next
    case False
    then have "x \<in> set ys" using Cons.prems by simp
    from Cons.IH[OF this] obtain i where i: "i < length ys" "indexOf ys x = int i"
      "take i ys @ drop (Suc i) ys = remove1 x ys" by blast
    show ?thesis using False i by (intro exI[of _ "Suc i"]) (simp add: Let_def)
  qed
qed

lemma splice_js_indexOf_present:
  "x \<in> set xs \<Longrightarrow> splice_js xs (indexOf xs x) (Suc 0) = remove1 x xs"
  using indexOf_present[of x xs] by (auto simp: splice_js_at)

lemma splice_js_indexOf_absent:
  "x \<notin> set xs \<Longrightarrow> splice_js xs (indexOf xs x) (Suc 0) = butlast xs"
  by (simp add: indexOf_absent splice_js_minus_one)

subsection \<open>Lockstep of root set and registry\<close>

lemma distinct_count_list:
  "distinct xs \<Longrightarrow> count_list xs x = (if x \<in> set xs then 1 else 0)"
  by (induction xs) auto

lemma changed_entry_lockstep:
  assumes "distinct (rootFilePaths s)" "in_lockstep s"
  shows "distinct (rootFilePaths (changed_entry p s)) \<and> in_lockstep (changed_entry p s)"
proof (cases "is_tracked (fileRegistry s) p")
  case True
  then obtain r where r: "fileRegistry s p = Some (Some r)"
    by (auto simp: is_tracked_def split: option.splits)
  then show ?thesis using assms
    by (auto simp: changed_entry_def in_lockstep_def is_tracked_def)
next
  case False
  then have "p \<notin> set (rootFilePaths s)" using assms(2) by (simp add: in_lockstep_def)
  then show ?thesis using assms False
    by (auto simp: changed_entry_def in_lockstep_def is_tracked_def split: option.splits)
qed

lemma fold_changed_lockstep:
  "distinct (rootFilePaths s) \<Longrightarrow> in_lockstep s \<Longrightarrow>
     distinct (rootFilePaths (fold changed_entry ps s)) \<and> in_lockstep (fold changed_entry ps s)"
  by (induction ps arbitrary: s) (simp_all add: changed_entry_lockstep)

lemma removed_entry_lockstep:
  assumes "distinct (rootFilePaths s)" "in_lockstep s" "is_tracked (fileRegistry s) p"
  shows "distinct (rootFilePaths (snd (removed_entry e p s))) \<and>
         in_lockstep (snd (removed_entry e p s))"
proof -
  have "p \<in> set (rootFilePaths s)" using assms(2,3) by (simp add: in_lockstep_def)
  then have "rootFilePaths (snd (removed_entry e p s)) = remove1 p (rootFilePaths s)"
    by (simp add: splice_js_indexOf_present)
  then show ?thesis using assms(1,2)
    by (auto simp: in_lockstep_def is_tracked_def)
qed

lemma forEach_removed_registry:
  "removals_tracked ps (fileRegistry s) \<Longrightarrow> distinct (rootFilePaths s) \<Longrightarrow> in_lockstep s \<Longrightarrow>
     distinct (rootFilePaths (snd (forEach_removed e ps s))) \<and>
     in_lockstep (snd (forEach_removed e ps s))"
proof (induction ps arbitrary: s)
  case Nil
  then show ?case by simp
next
  case (Cons p ps)
  have t: "is_tracked (fileRegistry s) p" using Cons.prems(1) by simp
  note step = removed_entry_lockstep[OF Cons.prems(2,3) t, of e]
  have rt: "removals_tracked ps (fileRegistry (snd (removed_entry e p s)))"
    using Cons.prems(1) by simp
  show ?case
  proof (cases "fst (removed_entry e p s)")
    case (Inl err)
    then show ?thesis using step by (simp add: and_then_alt)
  next
    case (Inr u)
    then show ?thesis using Cons.IH[OF rt] step by (simp add: and_then_alt)
  qed
qed

lemma rebuild_lockstep:
  assumes "distinct (rootFilePaths s)" "in_lockstep s" "diff_consistent d s"
  shows "distinct (rootFilePaths (snd (rebuild e d s))) \<and> in_lockstep (snd (rebuild e d s))"
proof -
  let ?s1 = "fold changed_entry (changedPaths d) s"
  have a: "distinct (rootFilePaths ?s1) \<and> in_lockstep ?s1"
    using fold_changed_lockstep assms(1,2) by blast
  have b: "removals_tracked (removedPaths d) (fileRegistry ?s1)"
    using assms(3) by (simp add: diff_consistent_def forEach_changed_eq)
  from forEach_removed_registry[OF b, of e] a
  have "distinct (rootFilePaths (snd (diff_phase e d s))) \<and> in_lockstep (snd (diff_phase e d s))"
    by (simp add: diff_phase_def forEach_changed_eq)
  then show ?thesis by (simp add: rebuild_fields in_lockstep_def)
qed

lemma run_cycles_lockstep:
  "distinct (rootFilePaths s) \<Longrightarrow> in_lockstep s \<Longrightarrow> cycles_consistent cycles s \<Longrightarrow>
     distinct (rootFilePaths (run_cycles cycles s)) \<and> in_lockstep (run_cycles cycles s)"
proof (induction cycles arbitrary: s)
  case Nil
  then show ?case by simp
next
  case (Cons c cs)
  obtain e d where c: "c = (e, d)" by (cases c)
  have dc: "diff_consistent d s" and cc: "cycles_consistent cs (snd (rebuild e d s))"
    using Cons.prems(3) c by simp_all
  from rebuild_lockstep[OF Cons.prems(1,2) dc, of e] Cons.IH cc
  show ?case by (simp add: c)
qed

subsection \<open>Removal of stale outputs\<close>

lemma removeOutputFor_absent:
  "files s (js_artifact e s p) = None \<Longrightarrow>
     removeOutputFor e p s = (Inr (), record_event (Exists (js_artifact e s p)) s)"
  by (simp add: removeOutputFor_def js_artifact_def Let_def)

lemma removeOutputFor_all_present:
  assumes "files s (js_artifact e s p) \<noteq> None" "files s (map_artifact e s p) \<noteq> None"
    "files s (dts_artifact e s p) \<noteq> None"
    "distinct [js_artifact e s p, map_artifact e s p, dts_artifact e s p]"
  shows "removeOutputFor e p s =
     (Inr (),
      s\<lparr>files := (files s)(js_artifact e s p := None, map_artifact e s p := None,
                            dts_artifact e s p := None),
        trace := trace s @ [Exists (js_artifact e s p), Unlink (js_artifact e s p),
                            Unlink (map_artifact e s p), Unlink (dts_artifact e s p)]\<rparr>)"
  using assms
  by (auto simp: removeOutputFor_def js_artifact_def map_artifact_def dts_artifact_def Let_def
      and_then_def unlinkSync_def record_event_def)

lemma removeOutputFor_missing:
  assumes "files s (js_artifact e s p) \<noteq> None"
    "files s (map_artifact e s p) = None \<or> files s (dts_artifact e s p) = None"
  shows "fst (removeOutputFor e p s) = Inl (ENOENT (map_artifact e s p)) \<or>
         fst (removeOutputFor e p s) = Inl (ENOENT (dts_artifact e s p))"
  using assms
  by (auto simp: removeOutputFor_def js_artifact_def map_artifact_def dts_artifact_def Let_def
      and_then_def unlinkSync_def record_event_def split: option.splits)

lemma removeOutputFor_files_only:
  "files s = files s' \<Longrightarrow> cachePath s = cachePath s' \<Longrightarrow>
     fst (removeOutputFor e p s) = fst (removeOutputFor e p s')"
  by (auto simp: removeOutputFor_def Let_def and_then_def unlinkSync_def record_event_def
      split: option.splits)

lemma removed_entry_outcome:
  "fst (removed_entry e p s) = fst (removeOutputFor e p s)"
  unfolding removed_entry_def Let_def
  by (rule removeOutputFor_files_only) simp_all

lemma rebuild_removal_error:
  "fst (diff_phase e d s) = Inl err \<Longrightarrow> rebuild e d s = diff_phase e d s"
  by (simp add: rebuild_phases and_then_alt)

lemma ts_suffix_names:
  "replace_dot_ts (x @ ''.ts'') r = x @ r \<and> replace_any_ts (x @ ''.ts'') r = x @ r"
  by (simp add: replace_dot_ts_def replace_any_ts_def)

subsection \<open>Incremental emission and the build decision\<close>

lemma write_files_files: "files (write_files e outs s) = written outs (files s)"
  by (induction outs arbitrary: s) (simp_all add: written_def write_file_def)

lemma write_files_trace: "trace (write_files e outs s) = trace s @ write_events e outs"
  by (induction outs arbitrary: s) (simp_all add: write_events_def write_file_def)

lemma logError_eq:
  "logError e p s =
     (path_diagnostics e p \<noteq> [],
      s\<lparr>trace := trace s @ [OptionsDiags, SyntacticDiags p, SemanticDiags p] @
                 map (\<lambda>d. Log (error_line d)) (path_diagnostics e p)\<rparr>)"
  by (simp add: logError_def path_diagnostics_def Let_def)

lemma emit_entry_fst:
  "fst (emit_entry e p (errs, s)) = errs @ (if failed_path e p then [p] else [])"
  by (simp add: emit_entry_def Let_def logError_eq failed_path_def)

lemma emit_entry_files:
  "files (snd (emit_entry e p (errs, s))) =
     written (if emitSkipped (getEmitOutput e p) then [] else outputFiles (getEmitOutput e p))
       (files s)"
  by (simp add: emit_entry_def Let_def logError_eq write_files_files written_def)

lemma emit_entry_trace:
  "trace (snd (emit_entry e p (errs, s))) = trace s @ emit_events e p"
  by (simp add: emit_entry_def Let_def logError_eq write_files_trace emit_events_def)

lemma written_append: "written (xs @ ys) fs = written ys (written xs fs)"
  by (simp add: written_def)

lemma forEach_emit_fst:
  "fst (forEach_emit e ps (errs, s)) = errs @ filter (failed_path e) ps"
proof (induction ps arbitrary: errs s)
  case Nil
  then show ?case by simp
next
  case (Cons p ps)
  obtain errs' s' where st: "emit_entry e p (errs, s) = (errs', s')"
    by (cases "emit_entry e p (errs, s)")
  have "errs' = errs @ (if failed_path e p then [p] else [])"
    using emit_entry_fst[of e p errs s] st by simp
  then show ?case using Cons.IH[of errs' s'] st by simp
qed

lemma forEach_emit_files:
  "files (snd (forEach_emit e ps (errs, s))) = written (emitted_files e ps) (files s)"
proof (induction ps arbitrary: errs s)
  case Nil
  then show ?case by (simp add: emitted_files_def written_def)
next
  case (Cons p ps)
  obtain errs' s' where st: "emit_entry e p (errs, s) = (errs', s')"
    by (cases "emit_entry e p (errs, s)")
  have "files s' =
     written (if emitSkipped (getEmitOutput e p) then [] else outputFiles (getEmitOutput e p))
       (files s)"
    using emit_entry_files[of e p errs s] st by simp
  then show ?case using Cons.IH[of errs' s'] st
    by (simp add: emitted_files_def written_append) (simp add: written_def)
qed

lemma forEach_emit_trace:
  "trace (snd (forEach_emit e ps (errs, s))) = trace s @ concat (map (emit_events e) ps)"
proof (induction ps arbitrary: errs s)
  case Nil
  then show ?case by simp
next
  case (Cons p ps)
  obtain errs' s' where st: "emit_entry e p (errs, s) = (errs', s')"
    by (cases "emit_entry e p (errs, s)")
  have "trace s' = trace s @ emit_events e p"
    using emit_entry_trace[of e p errs s] st by simp
  then show ?case using Cons.IH[of errs' s'] st by simp
qed

lemma filter_write_events [simp]:
  "filter is_emit_file (write_events e outs) = []"
  "filter is_emit_program (write_events e outs) = []"
  "filter is_write (write_events e outs) = map (\<lambda>out. WriteFile (out_name out) (out_text out)) outs"
  by (induction outs) (simp_all add: write_events_def)

lemma filter_emit_events [simp]:
  "filter is_emit_file (emit_events e p) = [EmitFile p]"
  "filter is_emit_program (emit_events e p) = []"
  "filter is_write (emit_events e p) =
     (if emitSkipped (getEmitOutput e p) then []
      else map (\<lambda>out. WriteFile (out_name out) (out_text out)) (outputFiles (getEmitOutput e p)))"
  by (simp_all add: emit_events_def filter_map comp_def)

lemma filter_all_emit_events:
  "filter is_emit_file (concat (map (emit_events e) ps)) = map EmitFile ps"
  "filter is_emit_program (concat (map (emit_events e) ps)) = []"
  "filter is_write (concat (map (emit_events e) ps)) =
     map (\<lambda>out. WriteFile (out_name out) (out_text out)) (emitted_files e ps)"
  by (induction ps) (simp_all add: emitted_files_def)

lemma doFullBuild_trace:
  "\<exists>post. trace (snd (doFullBuild e s)) =
     trace s @ EmitProgram (rootFilePaths s) # write_events e (outputFiles (program_emit e (rootFilePaths s))) @ post"
  by (simp add: doFullBuild_def Let_def write_files_trace split: option.split)

lemma build_phase_incremental:
  "\<not> firstRun s \<Longrightarrow>
     build_phase e ps s =
       (let s3 = snd (forEach_emit e ps ([], s)) in
        if filter (failed_path e) ps \<noteq> [] then
          (Inl (Error errors_message), s3\<lparr>previousRunFailed := True\<rparr>)
        else if previousRunFailed s then doFullBuild e s3
        else (Inr (), s3))"
  using forEach_emit_fst[of e ps "[]" s]
  by (simp add: build_phase_def case_prod_beta Let_def)

lemma rebuild_incremental:
  "\<not> firstRun s \<Longrightarrow> fst (diff_phase e d s) = Inr () \<Longrightarrow>
     rebuild e d s =
       (let s3 = snd (forEach_emit e (changedPaths d) ([], snd (diff_phase e d s))) in
        if filter (failed_path e) (changedPaths d) \<noteq> [] then
          (Inl (Error errors_message), s3\<lparr>previousRunFailed := True\<rparr>)
        else if previousRunFailed s then doFullBuild e s3
        else (Inr (), s3))"
proof -
  assume a: "\<not> firstRun s" "fst (diff_phase e d s) = Inr ()"
  have f: "\<not> firstRun (snd (diff_phase e d s))" using a(1)
    by (simp add: diff_phase_def forEach_changed_eq)
  have p: "previousRunFailed (snd (diff_phase e d s)) = previousRunFailed s"
    by (simp add: diff_phase_def forEach_changed_eq)
  show ?thesis using a(2) build_phase_incremental[OF f, of e "changedPaths d"] p
    by (simp add: rebuild_phases and_then_alt Let_def)
qed

lemma rebuild_first:
  "firstRun s \<Longrightarrow> fst (diff_phase e d s) = Inr () \<Longrightarrow>
     rebuild e d s = doFullBuild e ((snd (diff_phase e d s))\<lparr>firstRun := False\<rparr>)"
proof -
  assume a: "firstRun s" "fst (diff_phase e d s) = Inr ()"
  have f: "firstRun (snd (diff_phase e d s))" using a(1)
    by (simp add: diff_phase_def forEach_changed_eq)
  show ?thesis using a(2) f
    by (simp add: rebuild_phases and_then_alt build_phase_def)
qed

subsection \<open>Evaluating the scenarios\<close>

lemmas demo_defs = demo_env_def demo_start_def only_changed_def demo_diag_def demo_js_def
  DiffingTSCompiler_def
lemmas model_defs = rebuild_def changed_entry_def and_then_def doFullBuild_def emit_entry_def
  logError_def write_file_def record_event_def Let_def error_line_def replace_dot_ts_def
  replace_any_ts_def removed_entry_def removeOutputFor_def unlinkSync_def splice_js_def
  toString.simps digit_char_def errors_message_def

lemma degraded_state_eq:
  "degraded_state =
     \<lparr>cachePath = ''cache'',
      fileRegistry = [''a.ts'' \<mapsto> Some \<lparr>version = 0\<rparr>, ''b.ts'' \<mapsto> Some \<lparr>version = 0\<rparr>],
      rootFilePaths = [''a.ts'', ''b.ts''],
      firstRun = False, previousRunFailed = True,
      files = [''cache/a.js'' \<mapsto> ''js''],
      trace = [EmitProgram [''a.ts''], Mkdirs ''cache'', WriteFile ''cache/a.js'' ''js'',
               EmitFile ''b.ts'', OptionsDiags, SyntacticDiags ''b.ts'', SemanticDiags ''b.ts'',
               Log ''  Error b.ts (1,5): oops'']\<rparr>"
  by (simp add: degraded_state_def demo_defs model_defs)

lemma steady_state_eq:
  "steady_state =
     \<lparr>cachePath = ''cache'',
      fileRegistry = [''a.ts'' \<mapsto> Some \<lparr>version = 0\<rparr>],
      rootFilePaths = [''a.ts''],
      firstRun = False, previousRunFailed = False,
      files = [''cache/a.js'' \<mapsto> ''js''],
      trace = [EmitProgram [''a.ts''], Mkdirs ''cache'', WriteFile ''cache/a.js'' ''js'']\<rparr>"
  by (simp add: steady_state_def demo_defs model_defs)

lemma written_in:
  "n \<in> out_name ` set outs \<or> fs n \<noteq> None \<Longrightarrow> written outs fs n \<noteq> None"
  unfolding written_def by (induction outs arbitrary: fs) auto

lemma written_out:
  "n \<notin> out_name ` set outs \<Longrightarrow> written outs fs n = fs n"
  unfolding written_def by (induction outs arbitrary: fs) auto

lemma forEach_removed_append:
  "forEach_removed e (xs @ ys) s = and_then (forEach_removed e xs s) (forEach_removed e ys)"
proof (induction xs arbitrary: s)
  case Nil
  then show ?case by (simp add: and_then_def)
next
  case (Cons x xs)
  then show ?case by (simp add: and_then_alt split: sum.split)
qed

lemma rebuild_removal_reached:
  assumes "removedPaths d = pre @ p # post"
    and "forEach_removed e pre (snd (forEach_changed (changedPaths d) ([], s0))) = (Inr (), s)"
    and "fst (removed_entry e p s) = Inl err"
  shows "fst (rebuild e d s0) = Inl err"
proof -
  have "diff_phase e d s0 = forEach_removed e (p # post) s"
    using assms(1,2) by (simp add: diff_phase_def forEach_removed_append and_then_def)
  then have "fst (diff_phase e d s0) = Inl err"
    using assms(3) by (simp add: and_then_alt)
  then show ?thesis by (simp add: rebuild_removal_error)
qed

subsection \<open>The firstRun flag\<close>

lemma build_phase_firstRun: "firstRun (snd (build_phase e ps s)) = False"
  by (simp add: build_phase_def case_prod_beta)

lemma diff_phase_firstRun: "firstRun (snd (diff_phase e d s)) = firstRun s"
  by (simp add: diff_phase_def forEach_changed_eq)

lemma rebuild_firstRun:
  "firstRun (snd (rebuild e d s)) = (firstRun s \<and> fst (diff_phase e d s) \<noteq> Inr ())"
  by (cases "fst (diff_phase e d s)")
     (simp_all add: rebuild_phases and_then_alt build_phase_firstRun diff_phase_firstRun)

lemma diff_phase_no_removals: "removedPaths d = [] \<Longrightarrow> fst (diff_phase e d s) = Inr ()"
  by (simp add: diff_phase_def)

lemma run_cycles_not_firstRun: "\<not> firstRun s \<Longrightarrow> \<not> firstRun (run_cycles cycles s)"
proof (induction cycles arbitrary: s)
  case Nil
  then show ?case by simp
next
  case (Cons c cs)
  obtain e d where c: "c = (e, d)" by (cases c)
  have "\<not> firstRun (snd (rebuild e d s))" using Cons.prems by (simp add: rebuild_firstRun)
  from Cons.IH[OF this] show ?case by (simp add: c)
qed

lemma firstRun_history_false:
  "\<not> firstRun s \<Longrightarrow> firstRun_history cycles s = replicate (Suc (length cycles)) False"
proof (induction cycles arbitrary: s)
  case Nil
  then show ?case by simp
next
  case (Cons c cs)
  obtain e d where c: "c = (e, d)" by (cases c)
  have "\<not> firstRun (snd (rebuild e d s))" using Cons.prems by (simp add: rebuild_firstRun)
  from Cons.IH[OF this] show ?case using Cons.prems by (simp add: c)
qed

lemma firstRun_history_shape:
  "\<exists>k. firstRun_history cycles s = replicate k True @ replicate (Suc (length cycles) - k) False"
proof (induction cycles arbitrary: s)
  case Nil
  show ?case
  proof (cases "firstRun s")
    case True
    then show ?thesis by (intro exI[of _ 1]) simp
  next
    case False
    then show ?thesis by (intro exI[of _ 0]) simp
  qed
next
  case (Cons c cs)
  obtain e d where c: "c = (e, d)" by (cases c)
  show ?case
  proof (cases "firstRun s")
    case True
    obtain k where "firstRun_history cs (snd (rebuild e d s)) =
        replicate k True @ replicate (Suc (length cs) - k) False"
      using Cons.IH by blast
    then show ?thesis using True by (intro exI[of _ "Suc k"]) (simp add: c)
  next
    case False
    from firstRun_history_false[OF this, of "c # cs"]
    show ?thesis by (intro exI[of _ 0]) simp
  qed
qed

section \<open>The properties\<close>

subsection \<open>C1: a cycle that starts with the failure flag set\<close>

text \<open>
  C1 as stated says that a call of \<open>rebuild\<close> with \<open>firstRun\<close> false and
  \<open>previousRunFailed\<close> true requests no per-path emission before the full build. The
  code runs the loop over \<^verbatim>\<open>pathsToEmit\<close> first in every call that is not the first: in
  the degraded state below, with \<^verbatim>\<open>c.ts\<close> changed, the service is asked to emit \<^verbatim>\<open>c.ts\<close>
  and its output is written before the program is emitted.
\<close>

theorem C1_counterexample:
  "\<not> firstRun degraded_state \<and> previousRunFailed degraded_state \<and>
   trace (snd (rebuild (demo_env [] []) (only_changed [''c.ts'']) degraded_state)) =
     trace degraded_state @
     [EmitFile ''c.ts'', Mkdirs ''cache'', WriteFile ''cache/c.js'' ''js'',
      EmitProgram [''a.ts'', ''b.ts'', ''c.ts''],
      Mkdirs ''cache'', WriteFile ''cache/a.js'' ''js'',
      Mkdirs ''cache'', WriteFile ''cache/b.js'' ''js'',
      Mkdirs ''cache'', WriteFile ''cache/c.js'' ''js'']"
  by (simp add: degraded_state_eq demo_defs model_defs)

text \<open>
  C1, amended. In a call with \<open>firstRun\<close> false and \<open>previousRunFailed\<close> true whose
  diff loops do not throw, emission is requested for every changed path, in the order of
  the diff and before any program emit. If no path is recorded as failed, the full build
  then runs over the whole root set, however small the diff; if some path is recorded as
  failed, the call throws with the flag set and no full build runs.
\<close>

theorem C1_degraded_cycle:
  assumes "\<not> firstRun s" and "previousRunFailed s" and "fst (diff_phase e d s) = Inr ()"
  shows
    "filter is_emit_file (trace (snd (forEach_emit e (changedPaths d) ([], snd (diff_phase e d s))))) =
       filter is_emit_file (trace (snd (diff_phase e d s))) @ map EmitFile (changedPaths d) \<and>
     filter is_emit_program (trace (snd (forEach_emit e (changedPaths d) ([], snd (diff_phase e d s))))) =
       filter is_emit_program (trace (snd (diff_phase e d s))) \<and>
     (if \<exists>p \<in> set (changedPaths d). failed_path e p
      then rebuild e d s =
             (Inl (Error errors_message),
              (snd (forEach_emit e (changedPaths d) ([], snd (diff_phase e d s))))
                \<lparr>previousRunFailed := True\<rparr>)
      else rebuild e d s =
             doFullBuild e (snd (forEach_emit e (changedPaths d) ([], snd (diff_phase e d s)))) \<and>
           (\<exists>post. trace (snd (rebuild e d s)) =
              trace (snd (forEach_emit e (changedPaths d) ([], snd (diff_phase e d s)))) @
              EmitProgram (rootFilePaths (snd (diff_phase e d s))) # post))"
proof -
  let ?s1 = "snd (diff_phase e d s)"
  let ?s2 = "snd (forEach_emit e (changedPaths d) ([], ?s1))"
  have t: "trace ?s2 = trace ?s1 @ concat (map (emit_events e) (changedPaths d))"
    by (rule forEach_emit_trace)
  have a: "filter is_emit_file (trace ?s2) =
      filter is_emit_file (trace ?s1) @ map EmitFile (changedPaths d)"
    by (simp add: t filter_all_emit_events)
  have b: "filter is_emit_program (trace ?s2) = filter is_emit_program (trace ?s1)"
    by (simp add: t filter_all_emit_events)
  have r: "rebuild e d s =
       (if filter (failed_path e) (changedPaths d) \<noteq> [] then
          (Inl (Error errors_message), ?s2\<lparr>previousRunFailed := True\<rparr>)
        else doFullBuild e ?s2)"
    using rebuild_incremental[OF assms(1,3)] assms(2) by (simp add: Let_def)
  have c: "(filter (failed_path e) (changedPaths d) \<noteq> []) =
      (\<exists>p \<in> set (changedPaths d). failed_path e p)"
    by (simp add: filter_empty_conv)
  obtain post where post: "trace (snd (doFullBuild e ?s2)) =
      trace ?s2 @ EmitProgram (rootFilePaths ?s2) # post"
    using doFullBuild_trace[of e ?s2] by auto
  have roots: "rootFilePaths ?s2 = rootFilePaths ?s1" by simp
  show ?thesis
  proof (cases "\<exists>p \<in> set (changedPaths d). failed_path e p")
    case True
    then show ?thesis using a b r c by simp
  next
    case False
    then have "rebuild e d s = doFullBuild e ?s2" using r c by simp
    then show ?thesis using a b False post roots by auto
  qed
qed

text \<open>The degraded scenario satisfies the hypotheses, and takes the full-build branch.\<close>

theorem C1_degraded_cycle_witness:
  "\<not> firstRun degraded_state \<and> previousRunFailed degraded_state \<and>
   fst (diff_phase (demo_env [] []) (only_changed [''c.ts'']) degraded_state) = Inr () \<and>
   rebuild (demo_env [] []) (only_changed [''c.ts'']) degraded_state =
     doFullBuild (demo_env [] [])
       (snd (forEach_emit (demo_env [] []) [''c.ts'']
          ([], snd (diff_phase (demo_env [] []) (only_changed [''c.ts'']) degraded_state))))"
proof -
  have h1: "\<not> firstRun degraded_state" by (simp add: degraded_state_eq)
  have h2: "previousRunFailed degraded_state" by (simp add: degraded_state_eq)
  have h3: "fst (diff_phase (demo_env [] []) (only_changed [''c.ts'']) degraded_state) = Inr ()"
    by (simp add: diff_phase_def only_changed_def)
  have nf: "\<not> (\<exists>p \<in> set (changedPaths (only_changed [''c.ts''])). failed_path (demo_env [] []) p)"
    by (simp add: only_changed_def failed_path_def demo_env_def)
  have c: "changedPaths (only_changed [''c.ts'']) = [''c.ts'']" by (simp add: only_changed_def)
  from C1_degraded_cycle[OF h1 h2 h3] nf c h1 h2 h3 show ?thesis by simp
qed

subsection \<open>C2: the failure flag after a cycle without errors\<close>

text \<open>
  C2 says that \<open>previousRunFailed\<close> is false whenever \<open>rebuild\<close> returns from a cycle
  without errors. \<open>doFullBuild\<close> assigns the flag only inside the branch
  \<^verbatim>\<open>if (emitResult.emitSkipped)\<close>: when that branch finds no error message it clears the
  flag, but when the emit is not skipped at all the flag is left as it was. In the degraded
  state below \<^verbatim>\<open>b.ts\<close> is reported changed again and now emits; no path fails, the full
  build that follows reports no diagnostics and is not skipped, \<open>rebuild\<close> returns
  normally, and the flag is still set.
\<close>

theorem C2_flag_stays_set:
  "\<not> firstRun degraded_state \<and> previousRunFailed degraded_state \<and>
   filter (failed_path (demo_env [] [])) [''b.ts''] = [] \<and>
   \<not> emitSkipped (program_emit (demo_env [] []) [''a.ts'', ''b.ts'']) \<and>
   diagnostics (program_emit (demo_env [] []) [''a.ts'', ''b.ts'']) = [] \<and>
   fst (rebuild (demo_env [] []) (only_changed [''b.ts'']) degraded_state) = Inr () \<and>
   previousRunFailed (snd (rebuild (demo_env [] []) (only_changed [''b.ts'']) degraded_state))"
  by (simp add: degraded_state_eq demo_defs model_defs failed_path_def path_diagnostics_def)

subsection \<open>C3: a changed path whose emission is skipped\<close>

text \<open>
  C3 as stated says that every path whose emission is skipped is recorded as failed and
  makes the cycle throw. \<open>rebuild\<close> pushes the path to \<^verbatim>\<open>pathsWithErrors\<close> only when
  \<open>logError\<close> returns true, that is when it found at least one diagnostic. Below the
  emission of \<^verbatim>\<open>b.ts\<close> is skipped and the service has no diagnostic for it: nothing is
  recorded, the call returns normally and the flag stays clear.
\<close>

theorem C3_counterexample:
  "\<not> firstRun steady_state \<and>
   emitSkipped (getEmitOutput (demo_env [''b.ts''] []) ''b.ts'') \<and>
   fst (forEach_emit (demo_env [''b.ts''] []) [''b.ts'']
          ([], snd (diff_phase (demo_env [''b.ts''] []) (only_changed [''b.ts'']) steady_state))) = [] \<and>
   fst (rebuild (demo_env [''b.ts''] []) (only_changed [''b.ts'']) steady_state) = Inr () \<and>
   \<not> previousRunFailed (snd (rebuild (demo_env [''b.ts''] []) (only_changed [''b.ts'']) steady_state))"
  by (simp add: steady_state_eq demo_defs model_defs diff_phase_def)

text \<open>
  C3, amended. For every changed path processed in a cycle that is not the first and whose
  emission is reported as skipped, the compiler-options, syntactic and semantic diagnostics
  of the path are queried and logged, in this order, right after the emit request. The
  path is recorded as failed exactly when there is at least one such diagnostic, and then
  the cycle ends by setting the failure flag and throwing.
\<close>

theorem C3_skipped_emission:
  assumes "\<not> firstRun s" and "fst (diff_phase e d s) = Inr ()"
    and "p \<in> set (changedPaths d)" and "emitSkipped (getEmitOutput e p)"
  shows
    "(\<exists>pre post. trace (snd (rebuild e d s)) =
        pre @ [EmitFile p, OptionsDiags, SyntacticDiags p, SemanticDiags p] @
        map (\<lambda>d. Log (error_line d)) (path_diagnostics e p) @ post) \<and>
     (p \<in> set (fst (forEach_emit e (changedPaths d) ([], snd (diff_phase e d s)))) \<longleftrightarrow>
        path_diagnostics e p \<noteq> []) \<and>
     (path_diagnostics e p \<noteq> [] \<longrightarrow>
        fst (rebuild e d s) = Inl (Error errors_message) \<and>
        previousRunFailed (snd (rebuild e d s)))"
proof -
  let ?s1 = "snd (diff_phase e d s)"
  let ?s2 = "snd (forEach_emit e (changedPaths d) ([], ?s1))"
  let ?block = "[EmitFile p, OptionsDiags, SyntacticDiags p, SemanticDiags p] @
        map (\<lambda>d. Log (error_line d)) (path_diagnostics e p)"
  obtain xs ys where split: "changedPaths d = xs @ p # ys"
    using assms(3) by (auto simp: in_set_conv_decomp)
  have ev: "emit_events e p = ?block" using assms(4) by (simp add: emit_events_def)
  have t: "trace ?s2 =
      (trace ?s1 @ concat (map (emit_events e) xs)) @ ?block @ concat (map (emit_events e) ys)"
    by (simp add: forEach_emit_trace split ev)
  have r: "rebuild e d s =
       (if filter (failed_path e) (changedPaths d) \<noteq> [] then
          (Inl (Error errors_message), ?s2\<lparr>previousRunFailed := True\<rparr>)
        else if previousRunFailed s then doFullBuild e ?s2
        else (Inr (), ?s2))"
    using rebuild_incremental[OF assms(1,2)] by (simp add: Let_def)
  obtain post where post: "trace (snd (doFullBuild e ?s2)) = trace ?s2 @ post"
    using doFullBuild_trace[of e ?s2] by auto
  have "\<exists>post'. trace (snd (rebuild e d s)) = trace ?s2 @ post'"
    using r post by auto
  then obtain post' where "trace (snd (rebuild e d s)) = trace ?s2 @ post'" by blast
  then have "trace (snd (rebuild e d s)) =
      (trace ?s1 @ concat (map (emit_events e) xs)) @ ?block @
      (concat (map (emit_events e) ys) @ post')"
    using t by simp
  then have "trace (snd (rebuild e d s)) =
      (trace ?s1 @ concat (map (emit_events e) xs)) @
      [EmitFile p, OptionsDiags, SyntacticDiags p, SemanticDiags p] @
      map (\<lambda>d. Log (error_line d)) (path_diagnostics e p) @
      (concat (map (emit_events e) ys) @ post')"
    by simp
  then have A: "\<exists>pre post. trace (snd (rebuild e d s)) =
        pre @ [EmitFile p, OptionsDiags, SyntacticDiags p, SemanticDiags p] @
        map (\<lambda>d. Log (error_line d)) (path_diagnostics e p) @ post" by blast
  have B: "p \<in> set (fst (forEach_emit e (changedPaths d) ([], ?s1))) \<longleftrightarrow>
      path_diagnostics e p \<noteq> []"
    using assms(3,4) by (simp add: forEach_emit_fst failed_path_def)
  have C: "path_diagnostics e p \<noteq> [] \<longrightarrow>
        fst (rebuild e d s) = Inl (Error errors_message) \<and>
        previousRunFailed (snd (rebuild e d s))"
  proof
    assume "path_diagnostics e p \<noteq> []"
    then have "failed_path e p" using assms(4) by (simp add: failed_path_def)
    then have "filter (failed_path e) (changedPaths d) \<noteq> []"
      using assms(3) by (auto simp: filter_empty_conv)
    then show "fst (rebuild e d s) = Inl (Error errors_message) \<and>
        previousRunFailed (snd (rebuild e d s))" using r by simp
  qed
  from A B C show ?thesis by blast
qed

text \<open>A skipped path with one syntactic diagnostic, in the steady state.\<close>

theorem C3_skipped_emission_witness:
  "\<not> firstRun steady_state \<and>
   fst (diff_phase (demo_env [''b.ts''] [''b.ts'']) (only_changed [''b.ts'']) steady_state) = Inr () \<and>
   ''b.ts'' \<in> set (changedPaths (only_changed [''b.ts''])) \<and>
   emitSkipped (getEmitOutput (demo_env [''b.ts''] [''b.ts'']) ''b.ts'') \<and>
   path_diagnostics (demo_env [''b.ts''] [''b.ts'']) ''b.ts'' = [demo_diag ''b.ts''] \<and>
   fst (rebuild (demo_env [''b.ts''] [''b.ts'']) (only_changed [''b.ts'']) steady_state) =
     Inl (Error errors_message) \<and>
   previousRunFailed
     (snd (rebuild (demo_env [''b.ts''] [''b.ts'']) (only_changed [''b.ts'']) steady_state))"
proof -
  have h1: "\<not> firstRun steady_state" by (simp add: steady_state_eq)
  have h2: "fst (diff_phase (demo_env [''b.ts''] [''b.ts'']) (only_changed [''b.ts''])
      steady_state) = Inr ()"
    by (simp add: diff_phase_def only_changed_def)
  have h3: "''b.ts'' \<in> set (changedPaths (only_changed [''b.ts'']))"
    by (simp add: only_changed_def)
  have h4: "emitSkipped (getEmitOutput (demo_env [''b.ts''] [''b.ts'']) ''b.ts'')"
    by (simp add: demo_env_def)
  have h5: "path_diagnostics (demo_env [''b.ts''] [''b.ts'']) ''b.ts'' = [demo_diag ''b.ts'']"
    by (simp add: path_diagnostics_def demo_env_def)
  from C3_skipped_emission[OF h1 h2 h3 h4] h1 h2 h3 h4 h5 show ?thesis by simp
qed

subsection \<open>C4: an incremental cycle with a failed path\<close>

text \<open>
  C4 as stated says that an incremental cycle in which a changed path fails to emit sets
  \<open>previousRunFailed\<close> and throws. A path whose emission is skipped is pushed to
  \<^verbatim>\<open>pathsWithErrors\<close> only when \<open>logError\<close> found a diagnostic for it, and \<open>rebuild\<close> throws
  only when that array is not empty. Below \<^verbatim>\<open>c.ts\<close> emits, the emission of \<^verbatim>\<open>b.ts\<close> is
  skipped and the service has no diagnostic for it: the call returns normally and the flag
  stays clear.
\<close>

theorem C4_counterexample:
  "\<not> firstRun steady_state \<and>
   fst (diff_phase (demo_env [''b.ts''] []) (only_changed [''c.ts'', ''b.ts'']) steady_state) =
     Inr () \<and>
   emitSkipped (getEmitOutput (demo_env [''b.ts''] []) ''b.ts'') \<and>
   fst (rebuild (demo_env [''b.ts''] []) (only_changed [''c.ts'', ''b.ts'']) steady_state) =
     Inr () \<and>
   \<not> previousRunFailed
     (snd (rebuild (demo_env [''b.ts''] []) (only_changed [''c.ts'', ''b.ts'']) steady_state))"
  by (simp add: steady_state_eq demo_defs model_defs diff_phase_def)

text \<open>
  C4, amended. In a cycle that is not the first and whose diff loops do not throw, if for
  at least one changed path the emission is skipped and a diagnostic is found (the path is
  pushed to \<^verbatim>\<open>pathsWithErrors\<close>), \<open>rebuild\<close> throws the error with the message
  \<^verbatim>\<open>Typescript found errors listed above...\<close> and sets \<open>previousRunFailed\<close>. The files
  written during the cycle are exactly the output files of the paths whose emission was
  not skipped: a skipped path contributes none, every file written for a path that
  succeeded is in the cache directory when the error is thrown, and every other file of
  the cache directory is as the diff loops left it.
\<close>

theorem C4_failed_emission:
  assumes "\<not> firstRun s" and "fst (diff_phase e d s) = Inr ()"
    and "\<exists>p \<in> set (changedPaths d). failed_path e p"
  shows
    "fst (rebuild e d s) = Inl (Error ''Typescript found errors listed above...'') \<and>
     previousRunFailed (snd (rebuild e d s)) \<and>
     files (snd (rebuild e d s)) =
       written (emitted_files e (changedPaths d)) (files (snd (diff_phase e d s))) \<and>
     filter is_write (trace (snd (rebuild e d s))) =
       filter is_write (trace (snd (diff_phase e d s))) @
       map (\<lambda>out. WriteFile (out_name out) (out_text out)) (emitted_files e (changedPaths d)) \<and>
     (\<forall>out \<in> set (emitted_files e (changedPaths d)).
        files (snd (rebuild e d s)) (out_name out) \<noteq> None) \<and>
     (\<forall>n. n \<notin> out_name ` set (emitted_files e (changedPaths d)) \<longrightarrow>
        files (snd (rebuild e d s)) n = files (snd (diff_phase e d s)) n)"
proof -
  let ?s1 = "snd (diff_phase e d s)"
  let ?s2 = "snd (forEach_emit e (changedPaths d) ([], ?s1))"
  have "filter (failed_path e) (changedPaths d) \<noteq> []"
    using assms(3) by (simp add: filter_empty_conv)
  then have r: "rebuild e d s = (Inl (Error errors_message), ?s2\<lparr>previousRunFailed := True\<rparr>)"
    using rebuild_incremental[OF assms(1,2)] by (simp add: Let_def)
  have f: "files (snd (rebuild e d s)) =
      written (emitted_files e (changedPaths d)) (files ?s1)"
    by (simp add: r forEach_emit_files)
  have t: "filter is_write (trace (snd (rebuild e d s))) =
       filter is_write (trace ?s1) @
       map (\<lambda>out. WriteFile (out_name out) (out_text out)) (emitted_files e (changedPaths d))"
    by (simp add: r forEach_emit_trace filter_all_emit_events)
  have i: "\<forall>out \<in> set (emitted_files e (changedPaths d)).
        files (snd (rebuild e d s)) (out_name out) \<noteq> None"
  proof
    fix out
    assume "out \<in> set (emitted_files e (changedPaths d))"
    then have "out_name out \<in> out_name ` set (emitted_files e (changedPaths d))" by simp
    from written_in[OF disjI1, OF this]
    show "files (snd (rebuild e d s)) (out_name out) \<noteq> None" unfolding f .
  qed
  have o: "\<forall>n. n \<notin> out_name ` set (emitted_files e (changedPaths d)) \<longrightarrow>
        files (snd (rebuild e d s)) n = files ?s1 n"
    unfolding f by (simp add: written_out)
  show ?thesis using r f t i o by (simp add: errors_message_def)
qed

text \<open>\<^verbatim>\<open>c.ts\<close> emits, then \<^verbatim>\<open>b.ts\<close> fails: the cycle throws and \<^verbatim>\<open>cache/c.js\<close> stays.\<close>

theorem C4_failed_emission_witness:
  "\<not> firstRun steady_state \<and>
   fst (diff_phase (demo_env [''b.ts''] [''b.ts'']) (only_changed [''c.ts'', ''b.ts'']) steady_state) =
     Inr () \<and>
   failed_path (demo_env [''b.ts''] [''b.ts'']) ''b.ts'' \<and>
   emitted_files (demo_env [''b.ts''] [''b.ts'']) [''c.ts'', ''b.ts''] = [demo_js ''c.ts''] \<and>
   fst (rebuild (demo_env [''b.ts''] [''b.ts'']) (only_changed [''c.ts'', ''b.ts'']) steady_state) =
     Inl (Error ''Typescript found errors listed above...'') \<and>
   files (snd (rebuild (demo_env [''b.ts''] [''b.ts'']) (only_changed [''c.ts'', ''b.ts''])
     steady_state)) = [''cache/a.js'' \<mapsto> ''js'', ''cache/c.js'' \<mapsto> ''js'']"
proof -
  let ?e = "demo_env [''b.ts''] [''b.ts'']"
  let ?d = "only_changed [''c.ts'', ''b.ts'']"
  have h1: "\<not> firstRun steady_state" by (simp add: steady_state_eq)
  have h2: "fst (diff_phase ?e ?d steady_state) = Inr ()"
    by (simp add: diff_phase_def only_changed_def)
  have fp: "failed_path ?e ''b.ts''"
    by (simp add: failed_path_def path_diagnostics_def demo_env_def)
  have h3: "\<exists>p \<in> set (changedPaths ?d). failed_path ?e p"
    using fp by (simp add: only_changed_def)
  have em: "emitted_files ?e [''c.ts'', ''b.ts''] = [demo_js ''c.ts'']"
    by (simp add: emitted_files_def demo_env_def)
  have fs: "files (snd (diff_phase ?e ?d steady_state)) = [''cache/a.js'' \<mapsto> ''js'']"
    by (simp add: diff_phase_def only_changed_def forEach_changed_eq steady_state_eq)
  have cp: "changedPaths ?d = [''c.ts'', ''b.ts'']" by (simp add: only_changed_def)
  from C4_failed_emission[OF h1 h2 h3] h1 h2 fp em fs cp show ?thesis
    by (simp add: written_def demo_js_def replace_dot_ts_def)
qed

subsection \<open>C5: versions count the reports of a path\<close>

text \<open>
  C5. When a path without a record is reported changed, a record with version 0 is
  created and the path is appended to the root set; when a tracked path is reported
  changed, its version goes up by one and the root set is unchanged. So however often one
  diff reports an untracked path, the loop appends it exactly once; and over any run of
  cycles that never removes the path and reports it \<open>n > 0\<close> times, starting with the
  path untracked, the registry holds version \<open>n - 1\<close>, which \<open>getScriptVersion\<close> returns
  as a decimal string. For a compiler constructed without root files and a run of
  consistent diffs, such a path occurs exactly once in the root set.
\<close>

theorem C5_versions:
  "(\<not> is_tracked (fileRegistry s) p \<longrightarrow>
      fileRegistry (changed_entry p s) p = Some (Some \<lparr>version = 0\<rparr>) \<and>
      rootFilePaths (changed_entry p s) = rootFilePaths s @ [p]) \<and>
   (fileRegistry s p = Some (Some r) \<longrightarrow>
      fileRegistry (changed_entry p s) p = Some (Some (r\<lparr>version := version r + 1\<rparr>)) \<and>
      rootFilePaths (changed_entry p s) = rootFilePaths s) \<and>
   (\<not> is_tracked (fileRegistry s) p \<and> p \<in> set ps \<longrightarrow>
      count_list (rootFilePaths (snd (forEach_changed ps (acc, s)))) p =
        count_list (rootFilePaths s) p + 1) \<and>
   (\<not> is_tracked (fileRegistry s) p \<and> 0 < reports p cycles \<and>
    (\<forall>(e, d) \<in> set cycles. p \<notin> set (removedPaths d)) \<longrightarrow>
      fileRegistry (run_cycles cycles s) p = Some (Some \<lparr>version = reports p cycles - 1\<rparr>) \<and>
      getScriptVersion (run_cycles cycles s) p = Str (toString (reports p cycles - 1))) \<and>
   ((opt_rootFilePaths opts = None \<or> opt_rootFilePaths opts = Some []) \<and>
    cycles_consistent cycles (DiffingTSCompiler cache opts fs) \<and> 0 < reports p cycles \<and>
    (\<forall>(e, d) \<in> set cycles. p \<notin> set (removedPaths d)) \<longrightarrow>
      count_list (rootFilePaths (run_cycles cycles (DiffingTSCompiler cache opts fs))) p = 1)"
proof -
  have A: "\<not> is_tracked (fileRegistry s) p \<longrightarrow>
      fileRegistry (changed_entry p s) p = Some (Some \<lparr>version = 0\<rparr>) \<and>
      rootFilePaths (changed_entry p s) = rootFilePaths s @ [p]"
    using changed_entry_untracked by blast
  have B: "fileRegistry s p = Some (Some r) \<longrightarrow>
      fileRegistry (changed_entry p s) p = Some (Some (r\<lparr>version := version r + 1\<rparr>)) \<and>
      rootFilePaths (changed_entry p s) = rootFilePaths s"
    using changed_entry_tracked by blast
  have C: "\<not> is_tracked (fileRegistry s) p \<and> p \<in> set ps \<longrightarrow>
      count_list (rootFilePaths (snd (forEach_changed ps (acc, s)))) p =
        count_list (rootFilePaths s) p + 1"
    by (simp add: forEach_changed_eq fold_changed_count_untracked)
  have D: "\<not> is_tracked (fileRegistry s) p \<and> 0 < reports p cycles \<and>
    (\<forall>(e, d) \<in> set cycles. p \<notin> set (removedPaths d)) \<longrightarrow>
      fileRegistry (run_cycles cycles s) p = Some (Some \<lparr>version = reports p cycles - 1\<rparr>) \<and>
      getScriptVersion (run_cycles cycles s) p = Str (toString (reports p cycles - 1))"
  proof
    assume h: "\<not> is_tracked (fileRegistry s) p \<and> 0 < reports p cycles \<and>
      (\<forall>(e, d) \<in> set cycles. p \<notin> set (removedPaths d))"
    then have "fileRegistry (run_cycles cycles s) p =
        Some (Some \<lparr>version = reports p cycles - 1\<rparr>)"
      using run_cycles_untracked[of s p cycles] by blast
    then show "fileRegistry (run_cycles cycles s) p =
        Some (Some \<lparr>version = reports p cycles - 1\<rparr>) \<and>
      getScriptVersion (run_cycles cycles s) p = Str (toString (reports p cycles - 1))"
      by (simp add: getScriptVersion_def)
  qed
  have E: "(opt_rootFilePaths opts = None \<or> opt_rootFilePaths opts = Some []) \<and>
    cycles_consistent cycles (DiffingTSCompiler cache opts fs) \<and> 0 < reports p cycles \<and>
    (\<forall>(e, d) \<in> set cycles. p \<notin> set (removedPaths d)) \<longrightarrow>
      count_list (rootFilePaths (run_cycles cycles (DiffingTSCompiler cache opts fs))) p = 1"
  proof
    let ?s0 = "DiffingTSCompiler cache opts fs"
    assume h: "(opt_rootFilePaths opts = None \<or> opt_rootFilePaths opts = Some []) \<and>
      cycles_consistent cycles ?s0 \<and> 0 < reports p cycles \<and>
      (\<forall>(e, d) \<in> set cycles. p \<notin> set (removedPaths d))"
    then have r: "rootFilePaths ?s0 = []" by (auto simp: DiffingTSCompiler_def)
    have g: "fileRegistry ?s0 = Map.empty" by (simp add: DiffingTSCompiler_def)
    have d: "distinct (rootFilePaths ?s0)" using r by simp
    have l: "in_lockstep ?s0" using r g by (simp add: in_lockstep_def is_tracked_def)
    have u: "\<not> is_tracked (fileRegistry ?s0) p" using g by (simp add: is_tracked_def)
    have inv: "distinct (rootFilePaths (run_cycles cycles ?s0)) \<and>
        in_lockstep (run_cycles cycles ?s0)"
      using run_cycles_lockstep[OF d l] h by blast
    have "fileRegistry (run_cycles cycles ?s0) p =
        Some (Some \<lparr>version = reports p cycles - 1\<rparr>)"
      using run_cycles_untracked[OF u] h by blast
    then have "is_tracked (fileRegistry (run_cycles cycles ?s0)) p"
      by (simp add: is_tracked_def)
    then have "p \<in> set (rootFilePaths (run_cycles cycles ?s0))"
      using inv by (simp add: in_lockstep_def)
    then show "count_list (rootFilePaths (run_cycles cycles ?s0)) p = 1"
      using inv by (simp add: distinct_count_list)
  qed
  show ?thesis by (intro conjI A B C D E)
qed

text \<open>Three reports of \<^verbatim>\<open>b.ts\<close> from a fresh compiler leave it at version 2.\<close>

theorem C5_versions_witness:
  "\<not> is_tracked (fileRegistry demo_start) ''b.ts'' \<and>
   reports ''b.ts'' three_reports = 3 \<and>
   fileRegistry (changed_entry ''b.ts'' demo_start) ''b.ts'' = Some (Some \<lparr>version = 0\<rparr>) \<and>
   rootFilePaths (changed_entry ''b.ts'' demo_start) = [''b.ts''] \<and>
   fileRegistry (changed_entry ''b.ts'' (changed_entry ''b.ts'' demo_start)) ''b.ts'' =
     Some (Some \<lparr>version = 1\<rparr>) \<and>
   rootFilePaths (changed_entry ''b.ts'' (changed_entry ''b.ts'' demo_start)) = [''b.ts''] \<and>
   count_list (rootFilePaths (snd (forEach_changed [''b.ts'', ''a.ts'', ''b.ts''] ([], demo_start))))
     ''b.ts'' = 1 \<and>
   fileRegistry (run_cycles three_reports demo_start) ''b.ts'' = Some (Some \<lparr>version = 2\<rparr>) \<and>
   getScriptVersion (run_cycles three_reports demo_start) ''b.ts'' = Str ''2'' \<and>
   cycles_consistent three_reports demo_start \<and>
   count_list (rootFilePaths (run_cycles three_reports demo_start)) ''b.ts'' = 1"
proof -
  have u: "\<not> is_tracked (fileRegistry demo_start) ''b.ts''"
    by (simp add: is_tracked_def demo_defs)
  have n: "reports ''b.ts'' three_reports = 3"
    by (simp add: reports_def three_reports_def only_changed_def)
  have nr: "\<forall>(e, d) \<in> set three_reports. ''b.ts'' \<notin> set (removedPaths d)"
    by (simp add: three_reports_def only_changed_def)
  have r0: "rootFilePaths demo_start = []" by (simp add: demo_defs)
  have cc: "cycles_consistent three_reports demo_start"
    by (simp add: three_reports_def only_changed_def diff_consistent_def)
  note first = C5_versions[where s = demo_start and p = "''b.ts''" and r = "\<lparr>version = 0\<rparr>"
      and ps = "[''b.ts'', ''a.ts'', ''b.ts'']" and acc = "[]" and cycles = three_reports
      and opts = "\<lparr>opt_rootFilePaths = None\<rparr>" and cache = "''cache''" and fs = Map.empty]
  have t: "fileRegistry (changed_entry ''b.ts'' demo_start) ''b.ts'' = Some (Some \<lparr>version = 0\<rparr>)"
    using first u by blast
  note second = C5_versions[where s = "changed_entry ''b.ts'' demo_start" and p = "''b.ts''"
      and r = "\<lparr>version = 0\<rparr>" and ps = "[]" and acc = "[]" and cycles = "[]"
      and opts = "\<lparr>opt_rootFilePaths = None\<rparr>" and cache = "''cache''" and fs = Map.empty]
  have ts: "toString 2 = ''2''" by (simp add: toString.simps digit_char_def)
  have o: "opt_rootFilePaths \<lparr>opt_rootFilePaths = None\<rparr> = None" by simp
  have cnt: "count_list (rootFilePaths (run_cycles three_reports demo_start)) ''b.ts'' = 1"
    using first cc n nr o unfolding demo_start_def by simp
  show ?thesis using first second u n nr r0 t ts cc cnt by simp
qed

subsection \<open>C6: the root set and the registry in lockstep\<close>

text \<open>
  C6 as stated holds for every compiler. The constructor copies \<^verbatim>\<open>options.rootFilePaths\<close>
  into the root set and leaves the registry empty, so a compiler constructed with a root
  file has, after a first cycle with an empty (hence consistent) diff, a root path with no
  record.
\<close>

theorem C6_counterexample:
  "diff_consistent (only_changed []) typings_start \<and>
   fst (rebuild (demo_env [] []) (only_changed []) typings_start) = Inr () \<and>
   ''typings.d.ts'' \<in> set (rootFilePaths (snd (rebuild (demo_env [] []) (only_changed [])
      typings_start))) \<and>
   \<not> is_tracked (fileRegistry (snd (rebuild (demo_env [] []) (only_changed []) typings_start)))
      ''typings.d.ts''"
  by (simp add: typings_start_def demo_defs model_defs diff_consistent_def is_tracked_def)

text \<open>
  C6, amended. For a compiler constructed without root files in its options (none, or an
  empty array), after every cycle of a run whose diffs report a removal only while the
  path is tracked, a path is in the root set if and only if the registry holds a record
  for it, and no path is in the root set twice. The two facts together are preserved by
  each changed entry, by each removed entry of a tracked path (also when the deletion of
  its outputs throws), and by each whole call of \<open>rebuild\<close> with a consistent diff.
\<close>

theorem C6_lockstep:
  "((opt_rootFilePaths opts = None \<or> opt_rootFilePaths opts = Some []) \<and>
    cycles_consistent cycles (DiffingTSCompiler cache opts fs) \<longrightarrow>
      distinct (rootFilePaths (run_cycles cycles (DiffingTSCompiler cache opts fs))) \<and>
      in_lockstep (run_cycles cycles (DiffingTSCompiler cache opts fs))) \<and>
   (distinct (rootFilePaths s) \<and> in_lockstep s \<longrightarrow>
      distinct (rootFilePaths (changed_entry p s)) \<and> in_lockstep (changed_entry p s)) \<and>
   (distinct (rootFilePaths s) \<and> in_lockstep s \<and> is_tracked (fileRegistry s) p \<longrightarrow>
      distinct (rootFilePaths (snd (removed_entry e p s))) \<and>
      in_lockstep (snd (removed_entry e p s))) \<and>
   (distinct (rootFilePaths s) \<and> in_lockstep s \<and> diff_consistent d s \<longrightarrow>
      distinct (rootFilePaths (snd (rebuild e d s))) \<and> in_lockstep (snd (rebuild e d s)))"
proof -
  have A: "(opt_rootFilePaths opts = None \<or> opt_rootFilePaths opts = Some []) \<and>
    cycles_consistent cycles (DiffingTSCompiler cache opts fs) \<longrightarrow>
      distinct (rootFilePaths (run_cycles cycles (DiffingTSCompiler cache opts fs))) \<and>
      in_lockstep (run_cycles cycles (DiffingTSCompiler cache opts fs))"
  proof
    assume h: "(opt_rootFilePaths opts = None \<or> opt_rootFilePaths opts = Some []) \<and>
      cycles_consistent cycles (DiffingTSCompiler cache opts fs)"
    then have r: "rootFilePaths (DiffingTSCompiler cache opts fs) = []"
      by (auto simp: DiffingTSCompiler_def)
    have g: "fileRegistry (DiffingTSCompiler cache opts fs) = Map.empty"
      by (simp add: DiffingTSCompiler_def)
    have d: "distinct (rootFilePaths (DiffingTSCompiler cache opts fs))" using r by simp
    have l: "in_lockstep (DiffingTSCompiler cache opts fs)"
      using r g by (simp add: in_lockstep_def is_tracked_def)
    from run_cycles_lockstep[OF d l] h
    show "distinct (rootFilePaths (run_cycles cycles (DiffingTSCompiler cache opts fs))) \<and>
      in_lockstep (run_cycles cycles (DiffingTSCompiler cache opts fs))" by blast
  qed
  have B: "distinct (rootFilePaths s) \<and> in_lockstep s \<longrightarrow>
      distinct (rootFilePaths (changed_entry p s)) \<and> in_lockstep (changed_entry p s)"
    using changed_entry_lockstep by blast
  have C: "distinct (rootFilePaths s) \<and> in_lockstep s \<and> is_tracked (fileRegistry s) p \<longrightarrow>
      distinct (rootFilePaths (snd (removed_entry e p s))) \<and>
      in_lockstep (snd (removed_entry e p s))"
    using removed_entry_lockstep by blast
  have D: "distinct (rootFilePaths s) \<and> in_lockstep s \<and> diff_consistent d s \<longrightarrow>
      distinct (rootFilePaths (snd (rebuild e d s))) \<and> in_lockstep (snd (rebuild e d s))"
    using rebuild_lockstep by blast
  from A B C D show ?thesis by blast
qed

text \<open>Two consistent cycles from a fresh compiler.\<close>

theorem C6_lockstep_witness:
  "opt_rootFilePaths \<lparr>opt_rootFilePaths = None\<rparr> = None \<and>
   cycles_consistent add_then_remove demo_start \<and>
   rootFilePaths (run_cycles add_then_remove demo_start) = [''b.ts''] \<and>
   in_lockstep (run_cycles add_then_remove demo_start)"
proof -
  have c: "cycles_consistent add_then_remove demo_start"
    by (simp add: add_then_remove_def diff_consistent_def is_tracked_def demo_defs model_defs)
  have r: "rootFilePaths (run_cycles add_then_remove demo_start) = [''b.ts'']"
    by (simp add: add_then_remove_def demo_defs model_defs)
  have o: "opt_rootFilePaths \<lparr>opt_rootFilePaths = None\<rparr> = None" by simp
  from C6_lockstep[of "\<lparr>opt_rootFilePaths = None\<rparr>" add_then_remove "''cache''" Map.empty]
    c o r show ?thesis by (simp add: demo_start_def)
qed

subsection \<open>C7: removal of stale outputs\<close>

text \<open>
  C7. \<open>removeOutputFor\<close> first checks that the generated \<^verbatim>\<open>.js\<close> file exists. If it does
  not, nothing else happens and no error is raised. If it does and the source map and the
  declaration file exist as well (three different files), all three are deleted, in this
  order. If it does and the source map or the declaration file is missing, the deletion
  throws \<^verbatim>\<open>ENOENT\<close> for one of the two, and so does the call of \<open>rebuild\<close> whose loop over
  the removed paths reaches the path in such a state. For a source path \<^verbatim>\<open>x.ts\<close> the three files are \<^verbatim>\<open>x.js\<close>,
  \<^verbatim>\<open>x.js.map\<close> and \<^verbatim>\<open>x.d.ts\<close> under the cache directory.
\<close>

theorem C7_stale_output_removal:
  "(files s (js_artifact e s p) = None \<longrightarrow>
      removeOutputFor e p s = (Inr (), record_event (Exists (js_artifact e s p)) s)) \<and>
   (files s (js_artifact e s p) \<noteq> None \<and> files s (map_artifact e s p) \<noteq> None \<and>
    files s (dts_artifact e s p) \<noteq> None \<and>
    distinct [js_artifact e s p, map_artifact e s p, dts_artifact e s p] \<longrightarrow>
      removeOutputFor e p s =
        (Inr (),
         s\<lparr>files := (files s)(js_artifact e s p := None, map_artifact e s p := None,
                               dts_artifact e s p := None),
           trace := trace s @ [Exists (js_artifact e s p), Unlink (js_artifact e s p),
                               Unlink (map_artifact e s p), Unlink (dts_artifact e s p)]\<rparr>)) \<and>
   (files s (js_artifact e s p) \<noteq> None \<and>
    (files s (map_artifact e s p) = None \<or> files s (dts_artifact e s p) = None) \<longrightarrow>
      (fst (removeOutputFor e p s) = Inl (ENOENT (map_artifact e s p)) \<or>
       fst (removeOutputFor e p s) = Inl (ENOENT (dts_artifact e s p))) \<and>
      (removedPaths d = pre @ p # post \<and>
       forEach_removed e pre (snd (forEach_changed (changedPaths d) ([], s0))) = (Inr (), s) \<longrightarrow>
         fst (rebuild e d s0) = Inl (ENOENT (map_artifact e s p)) \<or>
         fst (rebuild e d s0) = Inl (ENOENT (dts_artifact e s p)))) \<and>
   js_artifact e s (x @ ''.ts'') = path_join e (cachePath s) (x @ ''.js'') \<and>
   map_artifact e s (x @ ''.ts'') = path_join e (cachePath s) (x @ ''.js.map'') \<and>
   dts_artifact e s (x @ ''.ts'') = path_join e (cachePath s) (x @ ''.d.ts'')"
proof -
  have A: "files s (js_artifact e s p) = None \<longrightarrow>
      removeOutputFor e p s = (Inr (), record_event (Exists (js_artifact e s p)) s)"
    using removeOutputFor_absent by blast
  have B: "files s (js_artifact e s p) \<noteq> None \<and> files s (map_artifact e s p) \<noteq> None \<and>
    files s (dts_artifact e s p) \<noteq> None \<and>
    distinct [js_artifact e s p, map_artifact e s p, dts_artifact e s p] \<longrightarrow>
      removeOutputFor e p s =
        (Inr (),
         s\<lparr>files := (files s)(js_artifact e s p := None, map_artifact e s p := None,
                               dts_artifact e s p := None),
           trace := trace s @ [Exists (js_artifact e s p), Unlink (js_artifact e s p),
                               Unlink (map_artifact e s p), Unlink (dts_artifact e s p)]\<rparr>)"
    using removeOutputFor_all_present by blast
  have C: "files s (js_artifact e s p) \<noteq> None \<and>
    (files s (map_artifact e s p) = None \<or> files s (dts_artifact e s p) = None) \<longrightarrow>
      (fst (removeOutputFor e p s) = Inl (ENOENT (map_artifact e s p)) \<or>
       fst (removeOutputFor e p s) = Inl (ENOENT (dts_artifact e s p))) \<and>
      (removedPaths d = pre @ p # post \<and>
       forEach_removed e pre (snd (forEach_changed (changedPaths d) ([], s0))) = (Inr (), s) \<longrightarrow>
         fst (rebuild e d s0) = Inl (ENOENT (map_artifact e s p)) \<or>
         fst (rebuild e d s0) = Inl (ENOENT (dts_artifact e s p)))"
  proof (intro impI conjI)
    assume h: "files s (js_artifact e s p) \<noteq> None \<and>
      (files s (map_artifact e s p) = None \<or> files s (dts_artifact e s p) = None)"
    then show m: "fst (removeOutputFor e p s) = Inl (ENOENT (map_artifact e s p)) \<or>
       fst (removeOutputFor e p s) = Inl (ENOENT (dts_artifact e s p))"
      using removeOutputFor_missing by blast
    assume r: "removedPaths d = pre @ p # post \<and>
       forEach_removed e pre (snd (forEach_changed (changedPaths d) ([], s0))) = (Inr (), s)"
    have o: "fst (removed_entry e p s) = fst (removeOutputFor e p s)"
      by (rule removed_entry_outcome)
    show "fst (rebuild e d s0) = Inl (ENOENT (map_artifact e s p)) \<or>
         fst (rebuild e d s0) = Inl (ENOENT (dts_artifact e s p))"
      using m o rebuild_removal_reached[of d pre p post e s0 s] r by metis
  qed
  have D: "js_artifact e s (x @ ''.ts'') = path_join e (cachePath s) (x @ ''.js'') \<and>
   map_artifact e s (x @ ''.ts'') = path_join e (cachePath s) (x @ ''.js.map'') \<and>
   dts_artifact e s (x @ ''.ts'') = path_join e (cachePath s) (x @ ''.d.ts'')"
    by (simp add: js_artifact_def map_artifact_def dts_artifact_def ts_suffix_names)
  show ?thesis by (intro conjI A B C D[THEN conjunct1] D[THEN conjunct2, THEN conjunct1]
      D[THEN conjunct2, THEN conjunct2])
qed

text \<open>The three cases: nothing built, everything built, and only the \<^verbatim>\<open>.js\<close> file there.\<close>

theorem C7_stale_output_removal_witness:
  "files steady_state (js_artifact (demo_env [] []) steady_state ''ghost.ts'') = None \<and>
   removeOutputFor (demo_env [] []) ''ghost.ts'' steady_state =
     (Inr (), record_event (Exists ''cache/ghost.js'') steady_state) \<and>
   files built_cache (js_artifact (demo_env [] []) built_cache ''a.ts'') = Some ''js'' \<and>
   files built_cache (map_artifact (demo_env [] []) built_cache ''a.ts'') = Some ''map'' \<and>
   files built_cache (dts_artifact (demo_env [] []) built_cache ''a.ts'') = Some ''dts'' \<and>
   fst (removeOutputFor (demo_env [] []) ''a.ts'' built_cache) = Inr () \<and>
   files (snd (removeOutputFor (demo_env [] []) ''a.ts'' built_cache)) = Map.empty \<and>
   files steady_state (js_artifact (demo_env [] []) steady_state ''a.ts'') = Some ''js'' \<and>
   files steady_state (map_artifact (demo_env [] []) steady_state ''a.ts'') = None \<and>
   fst (removeOutputFor (demo_env [] []) ''a.ts'' steady_state) = Inl (ENOENT ''cache/a.js.map'') \<and>
   fst (rebuild (demo_env [] []) (only_removed [''a.ts'']) steady_state) =
     Inl (ENOENT ''cache/a.js.map'')"
proof -
  let ?e = "demo_env [] []"
  have n: "js_artifact ?e steady_state ''ghost.ts'' = ''cache/ghost.js''"
    "js_artifact ?e steady_state ''a.ts'' = ''cache/a.js''"
    "map_artifact ?e steady_state ''a.ts'' = ''cache/a.js.map''"
    "dts_artifact ?e steady_state ''a.ts'' = ''cache/a.d.ts''"
    "js_artifact ?e built_cache ''a.ts'' = ''cache/a.js''"
    "map_artifact ?e built_cache ''a.ts'' = ''cache/a.js.map''"
    "dts_artifact ?e built_cache ''a.ts'' = ''cache/a.d.ts''"
    by (simp_all add: js_artifact_def map_artifact_def dts_artifact_def built_cache_def
        steady_state_eq demo_env_def replace_dot_ts_def replace_any_ts_def)
  have f: "files steady_state = [''cache/a.js'' \<mapsto> ''js'']"
    "files built_cache = [''cache/a.js'' \<mapsto> ''js'', ''cache/a.js.map'' \<mapsto> ''map'',
                            ''cache/a.d.ts'' \<mapsto> ''dts'']"
    by (simp_all add: built_cache_def steady_state_eq)
  have r: "removedPaths (only_removed [''a.ts'']) = [] @ ''a.ts'' # [] \<and>
      forEach_removed ?e [] (snd (forEach_changed (changedPaths (only_removed [''a.ts'']))
        ([], steady_state))) = (Inr (), steady_state)"
    by (simp add: only_removed_def)
  note absent = C7_stale_output_removal[of steady_state ?e "''ghost.ts''",
      THEN conjunct1, THEN mp]
  note present = C7_stale_output_removal[of built_cache ?e "''a.ts''",
      THEN conjunct2, THEN conjunct1, THEN mp]
  note missing = C7_stale_output_removal[where s = steady_state and e = ?e and p = "''a.ts''"
      and d = "only_removed [''a.ts'']" and pre = "[]" and post = "[]" and ?s0.0 = steady_state,
      THEN conjunct2, THEN conjunct2, THEN conjunct1, THEN mp]
  have a: "removeOutputFor ?e ''ghost.ts'' steady_state =
     (Inr (), record_event (Exists ''cache/ghost.js'') steady_state)"
    using absent by (simp add: n f)
  have p: "fst (removeOutputFor ?e ''a.ts'' built_cache) = Inr () \<and>
      files (snd (removeOutputFor ?e ''a.ts'' built_cache)) = Map.empty"
    using present by (simp add: n f)
  have m1: "fst (removeOutputFor ?e ''a.ts'' steady_state) \<noteq> Inl (ENOENT ''cache/a.d.ts'')"
    by (simp add: steady_state_eq demo_env_def model_defs)
  have m2: "fst (rebuild ?e (only_removed [''a.ts'']) steady_state) \<noteq>
      Inl (ENOENT ''cache/a.d.ts'')"
    by (simp add: steady_state_eq demo_env_def only_removed_def model_defs)
  have m: "fst (removeOutputFor ?e ''a.ts'' steady_state) = Inl (ENOENT ''cache/a.js.map'') \<and>
      fst (rebuild ?e (only_removed [''a.ts'']) steady_state) = Inl (ENOENT ''cache/a.js.map'')"
    using missing r m1 m2 by (simp add: n f)
  show ?thesis using a p m by (simp add: n f)
qed

subsection \<open>C8: removal of a path that is not tracked\<close>

text \<open>
  C8 as stated says that the removal of a path without a record is a fatal error and
  changes neither the root set nor the registry. \<open>rebuild\<close> has no check for it. In the
  steady state, where only \<^verbatim>\<open>a.ts\<close> is tracked, the removal of \<^verbatim>\<open>ghost.ts\<close> returns
  normally, assigns \<^verbatim>\<open>null\<close> to the registry slot of \<^verbatim>\<open>ghost.ts\<close>, and the root set loses an
  entry.
\<close>

theorem C8_counterexample:
  "fileRegistry steady_state ''ghost.ts'' = None \<and>
   rootFilePaths steady_state = [''a.ts''] \<and>
   fst (rebuild (demo_env [] []) (only_removed [''ghost.ts'']) steady_state) = Inr () \<and>
   rootFilePaths (snd (rebuild (demo_env [] []) (only_removed [''ghost.ts'']) steady_state)) = [] \<and>
   fileRegistry (snd (rebuild (demo_env [] []) (only_removed [''ghost.ts'']) steady_state))
     ''ghost.ts'' = Some None"
  by (simp add: steady_state_eq demo_env_def only_removed_def model_defs)

text \<open>
  C8, amended. The removal of a path that has no record is not detected: its registry slot
  is assigned \<^verbatim>\<open>null\<close>, and the outcome is that of the removal of stale outputs alone. In
  particular, when the generated \<^verbatim>\<open>.js\<close> file of the path does not exist, no error is
  raised, the cache directory is unchanged, and the cycle goes on to its build decision.
\<close>

theorem C8_untracked_removal:
  "\<not> is_tracked (fileRegistry s) p \<longrightarrow>
     fileRegistry (snd (removed_entry e p s)) = (fileRegistry s)(p \<mapsto> None) \<and>
     fst (removed_entry e p s) = fst (removeOutputFor e p s) \<and>
     (files s (js_artifact e s p) = None \<longrightarrow>
        fst (removed_entry e p s) = Inr () \<and>
        files (snd (removed_entry e p s)) = files s \<and>
        rebuild e \<lparr>changedPaths = [], removedPaths = [p]\<rparr> s =
          build_phase e [] (snd (removed_entry e p s)))"
proof (intro impI conjI)
  show "fileRegistry (snd (removed_entry e p s)) = (fileRegistry s)(p \<mapsto> None)" by simp
  show o: "fst (removed_entry e p s) = fst (removeOutputFor e p s)"
    by (rule removed_entry_outcome)
  assume a: "files s (js_artifact e s p) = None"
  then show ok: "fst (removed_entry e p s) = Inr ()"
    using o removeOutputFor_absent[of s e p] by simp
  show "files (snd (removed_entry e p s)) = files s"
    using a by (simp add: removed_entry_def Let_def removeOutputFor_def js_artifact_def)
  show "rebuild e \<lparr>changedPaths = [], removedPaths = [p]\<rparr> s =
          build_phase e [] (snd (removed_entry e p s))"
    using ok by (simp add: rebuild_phases diff_phase_def and_then_alt)
qed

text \<open>The removal of \<^verbatim>\<open>ghost.ts\<close> in the steady state.\<close>

theorem C8_untracked_removal_witness:
  "\<not> is_tracked (fileRegistry steady_state) ''ghost.ts'' \<and>
   files steady_state (js_artifact (demo_env [] []) steady_state ''ghost.ts'') = None \<and>
   fst (removed_entry (demo_env [] []) ''ghost.ts'' steady_state) = Inr () \<and>
   fileRegistry (snd (removed_entry (demo_env [] []) ''ghost.ts'' steady_state)) ''ghost.ts'' =
     Some None \<and>
   files (snd (removed_entry (demo_env [] []) ''ghost.ts'' steady_state)) = files steady_state"
proof -
  have u: "\<not> is_tracked (fileRegistry steady_state) ''ghost.ts''"
    by (simp add: steady_state_eq is_tracked_def)
  have a: "files steady_state (js_artifact (demo_env [] []) steady_state ''ghost.ts'') = None"
    by (simp add: steady_state_eq js_artifact_def demo_env_def replace_dot_ts_def)
  note w = C8_untracked_removal[of steady_state "''ghost.ts''" "demo_env [] []", THEN mp, OF u]
  note w3 = w[THEN conjunct2, THEN conjunct2, THEN mp, OF a]
  show ?thesis using u a w[THEN conjunct1] w3[THEN conjunct1] w3[THEN conjunct2, THEN conjunct1]
    by simp
qed

subsection \<open>C9: \<open>firstRun\<close> is cleared once\<close>

text \<open>
  C9 as stated says that \<open>firstRun\<close> becomes false during the first call of \<open>rebuild\<close>.
  The assignment comes after the two loops over the diff, so a first call in which the
  deletion of stale outputs throws leaves \<open>firstRun\<close> true: below the cache directory
  holds \<^verbatim>\<open>a.js\<close> without its source map and the first diff removes \<^verbatim>\<open>a.ts\<close>.
\<close>

theorem C9_counterexample:
  "firstRun stale_start \<and>
   fst (rebuild (demo_env [] []) (only_removed [''a.ts'']) stale_start) =
     Inl (ENOENT ''cache/a.js.map'') \<and>
   firstRun (snd (rebuild (demo_env [] []) (only_removed [''a.ts'']) stale_start))"
  by (simp add: stale_start_def demo_defs only_removed_def model_defs)

text \<open>
  C9, amended. \<open>firstRun\<close> becomes false during the first call of \<open>rebuild\<close> whose loops
  over the diff do not throw, in particular during a first call whose diff removes no
  path; it is cleared before the full build runs, so also when that build reports
  diagnostics and the cycle fails. A call leaves \<open>firstRun\<close> true only if it found it true
  and threw in the loops over the diff. Once false it stays false over any run of cycles,
  so the values of \<open>firstRun\<close> along a run are some \<open>True\<close>s followed by \<open>False\<close>s only:
  the branch that clears it is taken at most once.
\<close>

theorem C9_firstRun_once:
  "(removedPaths d = [] \<longrightarrow> \<not> firstRun (snd (rebuild e d s))) \<and>
   (firstRun s \<and> fst (diff_phase e d s) = Inr () \<longrightarrow>
      rebuild e d s = doFullBuild e ((snd (diff_phase e d s))\<lparr>firstRun := False\<rparr>) \<and>
      \<not> firstRun (snd (rebuild e d s))) \<and>
   (firstRun (snd (rebuild e d s)) \<longleftrightarrow> firstRun s \<and> fst (diff_phase e d s) \<noteq> Inr ()) \<and>
   (\<not> firstRun s \<longrightarrow> \<not> firstRun (run_cycles cycles s)) \<and>
   (\<exists>k. firstRun_history cycles s =
      replicate k True @ replicate (Suc (length cycles) - k) False)"
proof (intro conjI impI)
  show "firstRun (snd (rebuild e d s)) \<longleftrightarrow> firstRun s \<and> fst (diff_phase e d s) \<noteq> Inr ()"
    by (rule rebuild_firstRun)
  show "\<exists>k. firstRun_history cycles s =
      replicate k True @ replicate (Suc (length cycles) - k) False"
    by (rule firstRun_history_shape)
next
  assume "removedPaths d = []"
  then show "\<not> firstRun (snd (rebuild e d s))"
    by (simp add: rebuild_firstRun diff_phase_no_removals)
next
  assume "\<not> firstRun s"
  then show "\<not> firstRun (run_cycles cycles s)" by (rule run_cycles_not_firstRun)
next
  assume a: "firstRun s \<and> fst (diff_phase e d s) = Inr ()"
  then show "rebuild e d s = doFullBuild e ((snd (diff_phase e d s))\<lparr>firstRun := False\<rparr>)"
    by (simp add: rebuild_first)
  show "\<not> firstRun (snd (rebuild e d s))" using a by (simp add: rebuild_firstRun)
qed

text \<open>A first cycle whose full build fails, and a later run of three cycles.\<close>

theorem C9_firstRun_once_witness:
  "firstRun demo_start \<and>
   removedPaths (only_changed [''a.ts'']) = [] \<and>
   fst (diff_phase (demo_env [] [''a.ts'']) (only_changed [''a.ts'']) demo_start) = Inr () \<and>
   fst (rebuild (demo_env [] [''a.ts'']) (only_changed [''a.ts'']) demo_start) =
     Inl (Error errors_message) \<and>
   \<not> firstRun (snd (rebuild (demo_env [] [''a.ts'']) (only_changed [''a.ts'']) demo_start)) \<and>
   \<not> firstRun steady_state \<and>
   \<not> firstRun (run_cycles three_reports steady_state)"
proof -
  let ?e = "demo_env [] [''a.ts'']"
  let ?d = "only_changed [''a.ts'']"
  have f: "firstRun demo_start" by (simp add: demo_defs)
  have r: "removedPaths ?d = []" by (simp add: only_changed_def)
  have p: "fst (diff_phase ?e ?d demo_start) = Inr ()" by (simp add: diff_phase_def only_changed_def)
  have x: "fst (rebuild ?e ?d demo_start) = Inl (Error errors_message)"
    by (simp add: demo_defs model_defs)
  have n: "\<not> firstRun steady_state" by (simp add: steady_state_eq)
  note w1 = C9_firstRun_once[of ?d ?e demo_start "[]"]
  note w2 = C9_firstRun_once[of ?d ?e steady_state three_reports]
  show ?thesis using w1 w2 f r p x n by simp
qed

subsection \<open>C10: a removed path that comes back\<close>

text \<open>
  C10. A path whose registry slot holds the tombstone is handled by the changed loop as a
  path never seen: the slot gets a fresh record with version 0 and the path is appended
  at the end of the root set; the result is the one the loop gives when the slot is
  absent. In particular, after a cycle that removes a path, a cycle that reports it
  changed leaves it at version 0, appended to the root set the first cycle left.
\<close>

theorem C10_tombstone_as_first_seen:
  "(fileRegistry s p = Some None \<longrightarrow>
      fileRegistry (changed_entry p s) p = Some (Some \<lparr>version = 0\<rparr>) \<and>
      rootFilePaths (changed_entry p s) = rootFilePaths s @ [p] \<and>
      changed_entry p s = changed_entry p (s\<lparr>fileRegistry := (fileRegistry s)(p := None)\<rparr>)) \<and>
   fileRegistry (snd (rebuild e1 \<lparr>changedPaths = [], removedPaths = [p]\<rparr> s)) p = Some None \<and>
   fileRegistry (snd (rebuild e2 \<lparr>changedPaths = [p], removedPaths = []\<rparr>
      (snd (rebuild e1 \<lparr>changedPaths = [], removedPaths = [p]\<rparr> s)))) p =
     Some (Some \<lparr>version = 0\<rparr>) \<and>
   rootFilePaths (snd (rebuild e2 \<lparr>changedPaths = [p], removedPaths = []\<rparr>
      (snd (rebuild e1 \<lparr>changedPaths = [], removedPaths = [p]\<rparr> s)))) =
     rootFilePaths (snd (rebuild e1 \<lparr>changedPaths = [], removedPaths = [p]\<rparr> s)) @ [p]"
proof -
  let ?s1 = "snd (rebuild e1 \<lparr>changedPaths = [], removedPaths = [p]\<rparr> s)"
  have A: "fileRegistry s p = Some None \<longrightarrow>
      fileRegistry (changed_entry p s) p = Some (Some \<lparr>version = 0\<rparr>) \<and>
      rootFilePaths (changed_entry p s) = rootFilePaths s @ [p] \<and>
      changed_entry p s = changed_entry p (s\<lparr>fileRegistry := (fileRegistry s)(p := None)\<rparr>)"
    by (simp add: changed_entry_def)
  have t: "fileRegistry ?s1 p = Some None"
    by (simp add: rebuild_fields diff_phase_def and_then_alt split: sum.split)
  have u: "\<not> is_tracked (fileRegistry ?s1) p" using t by (simp add: is_tracked_def)
  have B: "fileRegistry (snd (rebuild e2 \<lparr>changedPaths = [p], removedPaths = []\<rparr> ?s1)) p =
      Some (Some \<lparr>version = 0\<rparr>)"
    using changed_entry_untracked[OF u] by (simp add: rebuild_fields diff_phase_def)
  have C: "rootFilePaths (snd (rebuild e2 \<lparr>changedPaths = [p], removedPaths = []\<rparr> ?s1)) =
      rootFilePaths ?s1 @ [p]"
    using changed_entry_untracked[OF u] by (simp add: rebuild_fields diff_phase_def)
  show ?thesis by (intro conjI; fact)
qed

text \<open>\<^verbatim>\<open>a.ts\<close> is removed in the degraded state and then reported changed.\<close>

theorem C10_tombstone_as_first_seen_witness:
  "fileRegistry (snd (rebuild (demo_env [] []) (only_removed [''a.ts'']) degraded_state)) ''a.ts'' =
     Some None \<and>
   rootFilePaths (snd (rebuild (demo_env [] []) (only_removed [''a.ts'']) degraded_state)) =
     [''b.ts''] \<and>
   fileRegistry (changed_entry ''a.ts''
     (snd (rebuild (demo_env [] []) (only_removed [''a.ts'']) degraded_state))) ''a.ts'' =
     Some (Some \<lparr>version = 0\<rparr>) \<and>
   rootFilePaths (changed_entry ''a.ts''
     (snd (rebuild (demo_env [] []) (only_removed [''a.ts'']) degraded_state))) =
     [''b.ts'', ''a.ts'']"
proof -
  let ?s1 = "snd (rebuild (demo_env [] []) (only_removed [''a.ts'']) degraded_state)"
  have t: "fileRegistry ?s1 ''a.ts'' = Some None"
    by (simp add: rebuild_fields diff_phase_def only_removed_def and_then_alt split: sum.split)
  have r: "rootFilePaths ?s1 = [''b.ts'']"
    by (simp add: rebuild_fields diff_phase_def only_removed_def and_then_alt degraded_state_eq
        splice_js_def split: sum.split)
  note w = C10_tombstone_as_first_seen[of ?s1 "''a.ts''" "demo_env [] []" "demo_env [] []",
      THEN conjunct1, THEN mp, OF t]
  show ?thesis using t r w[THEN conjunct1] w[THEN conjunct2, THEN conjunct1] by simp
qed

end
